theory Spec2Isabelle
  imports Main "HOL-Library.Multiset" "HOL-Library.Product_Lexorder"
begin

section \<open>The standard library's heapq, on a list with a given less-than\<close>

text \<open>
  \<^verbatim>\<open>eg_heap.py\<close> stores its nodes in a Python list and calls \<^verbatim>\<open>heapq.heappush\<close>,
  \<^verbatim>\<open>heapq.heappop\<close> and \<^verbatim>\<open>heapq.heapify\<close> on it. These are the functions of
  CPython's \<^verbatim>\<open>Lib/heapq.py\<close>; they compare elements with \<^verbatim>\<open><\<close> only, which is the
  parameter \<open>lt\<close> here. Every index they read is in range by construction.
\<close>

text \<open>
  \<^verbatim>\<open>_siftdown(heap, startpos, pos)\<close>: \<^verbatim>\<open>newitem = heap[pos]\<close>, then the loop
  \<^verbatim>\<open>while pos > startpos\<close> moves parents down while \<^verbatim>\<open>newitem < parent\<close>, then
  \<^verbatim>\<open>heap[pos] = newitem\<close>.
\<close>

function siftdown_loop :: "('b \<Rightarrow> 'b \<Rightarrow> bool) \<Rightarrow> 'b \<Rightarrow> 'b list \<Rightarrow> nat \<Rightarrow> nat \<Rightarrow> 'b list" where
  "siftdown_loop lt newitem heap startpos pos =
     (if pos > startpos then
        (let parentpos = (pos - 1) div 2;
             parent = heap ! parentpos
         in if lt newitem parent
            then siftdown_loop lt newitem (heap[pos := parent]) startpos parentpos
            else heap[pos := newitem])
      else heap[pos := newitem])"
  by pat_completeness auto
termination
  by (relation "measure (\<lambda>(lt, newitem, heap, startpos, pos). pos)") auto

definition siftdown :: "('b \<Rightarrow> 'b \<Rightarrow> bool) \<Rightarrow> 'b list \<Rightarrow> nat \<Rightarrow> nat \<Rightarrow> 'b list" where
  "siftdown lt heap startpos pos = siftdown_loop lt (heap ! pos) heap startpos pos"

text \<open>
  \<^verbatim>\<open>_siftup(heap, pos)\<close>: the first loop bubbles the smaller child up until \<^verbatim>\<open>pos\<close> is
  a leaf (\<^verbatim>\<open>childpos = rightpos\<close> when \<^verbatim>\<open>rightpos < endpos and not heap[childpos] <
  heap[rightpos]\<close>); then \<^verbatim>\<open>newitem\<close> is put at the leaf and \<^verbatim>\<open>_siftdown(heap, startpos,
  pos)\<close> moves it to its place. The loop returns the list and the leaf position.
\<close>

function siftup_loop :: "('b \<Rightarrow> 'b \<Rightarrow> bool) \<Rightarrow> 'b list \<Rightarrow> nat \<Rightarrow> nat \<Rightarrow> 'b list \<times> nat" where
  "siftup_loop lt heap endpos pos =
     (let childpos = 2 * pos + 1
      in if childpos < endpos then
           (let rightpos = childpos + 1;
                childpos = (if rightpos < endpos \<and> \<not> lt (heap ! childpos) (heap ! rightpos)
                            then rightpos else childpos)
            in siftup_loop lt (heap[pos := heap ! childpos]) endpos childpos)
         else (heap, pos))"
  by pat_completeness auto
termination
  by (relation "measure (\<lambda>(lt, heap, endpos, pos). endpos - pos)") auto

definition siftup :: "('b \<Rightarrow> 'b \<Rightarrow> bool) \<Rightarrow> 'b list \<Rightarrow> nat \<Rightarrow> 'b list" where
  "siftup lt heap pos =
     (let endpos = length heap;
          startpos = pos;
          newitem = heap ! pos;
          (heap1, pos1) = siftup_loop lt heap endpos pos
      in siftdown lt (heap1[pos1 := newitem]) startpos pos1)"

text \<open>\<^verbatim>\<open>heappush(heap, item)\<close>: append, then \<^verbatim>\<open>_siftdown(heap, 0, len(heap)-1)\<close>.\<close>

definition heappush :: "('b \<Rightarrow> 'b \<Rightarrow> bool) \<Rightarrow> 'b list \<Rightarrow> 'b \<Rightarrow> 'b list" where
  "heappush lt heap item = siftdown lt (heap @ [item]) 0 (length (heap @ [item]) - 1)"

text \<open>
  \<^verbatim>\<open>heappop(heap)\<close> on a non-empty list (its only caller, \<^verbatim>\<open>MinHeap.pop\<close>, returns
  before the call when the list is empty): \<^verbatim>\<open>lastelt = heap.pop()\<close>; if the list is
  now non-empty the root is returned and replaced by \<^verbatim>\<open>lastelt\<close>, followed by
  \<^verbatim>\<open>_siftup(heap, 0)\<close>; otherwise \<^verbatim>\<open>lastelt\<close> is returned.
\<close>

definition heappop :: "('b \<Rightarrow> 'b \<Rightarrow> bool) \<Rightarrow> 'b list \<Rightarrow> 'b \<times> 'b list" where
  "heappop lt heap =
     (let lastelt = last heap;
          heap1 = butlast heap
      in if heap1 \<noteq> [] then
           (let returnitem = heap1 ! 0
            in (returnitem, siftup lt (heap1[0 := lastelt]) 0))
         else (lastelt, heap1))"

text \<open>\<^verbatim>\<open>heapify(x)\<close>: \<^verbatim>\<open>for i in reversed(range(n//2)): _siftup(x, i)\<close>.\<close>

definition heapify :: "('b \<Rightarrow> 'b \<Rightarrow> bool) \<Rightarrow> 'b list \<Rightarrow> 'b list" where
  "heapify lt x = fold (\<lambda>i x. siftup lt x i) (rev [0..<length x div 2]) x"


section \<open>Nodes and their order\<close>

datatype error = TypeError | ValueError | IndexError | ConfigurationError

text \<open>
  \<^verbatim>\<open>HeapNode\<close> is a dataclass with the fields \<^verbatim>\<open>priority\<close>, \<^verbatim>\<open>value\<close> and
  \<^verbatim>\<open>insertion_count\<close> (the field \<^verbatim>\<open>value\<close> is \<open>val\<close> here). Priorities are Python
  integers. \<^verbatim>\<open>ConfigurationError\<close> is the specification's name for a failed construction;
  no statement of the source raises it.
\<close>

record 'a HeapNode =
  priority :: int
  val :: 'a
  insertion_count :: int

definition HeapNode_lt :: "'a HeapNode \<Rightarrow> 'a HeapNode \<Rightarrow> bool" where
  "HeapNode_lt self other =
     (if priority self = priority other
      then insertion_count self < insertion_count other
      else priority self < priority other)"

text \<open>
  The class defines \<^verbatim>\<open>__lt__\<close> only, and \<^verbatim>\<open>@dataclass\<close> (without \<^verbatim>\<open>order=True\<close>) adds
  \<^verbatim>\<open>__eq__\<close> only. Python does not derive \<^verbatim>\<open><=\<close> from them: \<^verbatim>\<open>a <= b\<close> on two nodes finds
  neither \<^verbatim>\<open>__le__\<close> nor the reflected \<^verbatim>\<open>__ge__\<close> and raises \<^verbatim>\<open>TypeError\<close>.
\<close>

definition HeapNode_le :: "'a HeapNode \<Rightarrow> 'a HeapNode \<Rightarrow> error + bool" where
  "HeapNode_le self other = Inl TypeError"

text \<open>
  Nodes are objects: the list \<^verbatim>\<open>self.heap\<close>, the copies on the snapshot stack and the
  list of a merged heap all hold references to them, and \<^verbatim>\<open>update_priority\<close> assigns to
  a node's field in place. The store is the list of all nodes ever allocated, in
  allocation order; a reference is an index into it.
\<close>

type_synonym 'a store = "'a HeapNode list"

definition node_lt :: "'a store \<Rightarrow> nat \<Rightarrow> nat \<Rightarrow> bool" where
  "node_lt st a b = HeapNode_lt (st ! a) (st ! b)"

section \<open>The class MinHeap\<close>

text \<open>
  The fields \<^verbatim>\<open>heap\<close>, \<^verbatim>\<open>size\<close>, \<^verbatim>\<open>_insertion_count\<close>, \<^verbatim>\<open>key_func\<close> and
  \<^verbatim>\<open>_snapshots\<close>.
\<close>

record 'a MinHeap =
  heap :: "nat list"
  size' :: int
  next_insertion_count :: int
  key_func :: "('a \<Rightarrow> int) option"
  snapshots :: "nat list list"

definition push_with_priority :: "'a store \<Rightarrow> 'a MinHeap \<Rightarrow> 'a \<Rightarrow> int \<Rightarrow> 'a store \<times> 'a MinHeap" where
  "push_with_priority st h v p =
     (let node = \<lparr>priority = p, val = v, insertion_count = next_insertion_count h\<rparr>;
          r = length st;
          st1 = st @ [node];
          h1 = h\<lparr>next_insertion_count := next_insertion_count h + 1\<rparr>;
          h2 = h1\<lparr>heap := heappush (node_lt st1) (heap h1) r\<rparr>
      in (st1, h2\<lparr>size' := size' h2 + 1\<rparr>))"

text \<open>
  \<^verbatim>\<open>push\<close>: the priority is \<^verbatim>\<open>key_func(value)\<close> if a key function is configured, else
  the value itself. The nodes of this section hold a number as priority, so without a
  key function the value is a number here, and \<open>num\<close> reads it as that number. A value
  that is not a number becomes the priority as it is; that call is \<open>push_py\<close> in the
  section on construction, where comparing the new node with a number raises
  \<^verbatim>\<open>TypeError\<close>.
\<close>

definition push :: "('a \<Rightarrow> int) \<Rightarrow> 'a store \<Rightarrow> 'a MinHeap \<Rightarrow> 'a \<Rightarrow> 'a store \<times> 'a MinHeap" where
  "push num st h v =
     (let p = (case key_func h of Some f \<Rightarrow> f v | None \<Rightarrow> num v)
      in push_with_priority st h v p)"

definition pop :: "'a store \<Rightarrow> 'a MinHeap \<Rightarrow> 'a option \<times> 'a MinHeap" where
  "pop st h =
     (if heap h = [] then (None, h)
      else (let h1 = h\<lparr>size' := size' h - 1\<rparr>;
                (node, hp) = heappop (node_lt st) (heap h1)
            in (Some (val (st ! node)), h1\<lparr>heap := hp\<rparr>)))"

definition peek :: "'a store \<Rightarrow> 'a MinHeap \<Rightarrow> (int \<times> 'a) option" where
  "peek st h =
     (if heap h = [] then None
      else (let node = st ! (heap h ! 0) in Some (priority node, val node)))"

definition heapify' :: "'a store \<Rightarrow> 'a MinHeap \<Rightarrow> 'a MinHeap" where
  "heapify' st h = h\<lparr>heap := heapify (node_lt st) (heap h)\<rparr>"

definition bulk_push :: "('a \<Rightarrow> int) \<Rightarrow> 'a store \<Rightarrow> 'a MinHeap \<Rightarrow> 'a list \<Rightarrow> 'a store \<times> 'a MinHeap" where
  "bulk_push num st h items =
     (let (st1, h1) = fold (\<lambda>item (st, h). push num st h item) items (st, h)
      in (st1, heapify' st1 h1))"

text \<open>
  \<^verbatim>\<open>merge\<close> reads the other heap's list and size and assigns to neither. The other
  heap is an object of its own, not \<^verbatim>\<open>self\<close>; the result is this heap and the other.
\<close>

definition merge :: "'a store \<Rightarrow> 'a MinHeap \<Rightarrow> 'a MinHeap \<Rightarrow> 'a MinHeap \<times> 'a MinHeap" where
  "merge st h other =
     (let h1 = h\<lparr>heap := heap h @ heap other\<rparr>;
          h2 = h1\<lparr>size' := size' h1 + size' other\<rparr>
      in (heapify' st h2, other))"

definition is_empty :: "'a MinHeap \<Rightarrow> bool" where
  "is_empty h = (size' h = 0)"

text \<open>
  \<^verbatim>\<open>drain\<close> consumed to its end: \<^verbatim>\<open>while not self.is_empty(): yield self.pop()\<close>. The
  loop tests \<^verbatim>\<open>size\<close> while \<^verbatim>\<open>pop\<close> tests the list, so it need not terminate on every
  state; not returning is the value \<open>None\<close>.
\<close>

partial_function (option) drain_loop :: "'a store \<Rightarrow> 'a MinHeap \<Rightarrow> 'a option list \<Rightarrow> ('a option list \<times> 'a MinHeap) option" where
  "drain_loop st h acc =
     (if is_empty h then Some (acc, h)
      else (case pop st h of (v, h1) \<Rightarrow> drain_loop st h1 (acc @ [v])))"

definition drain :: "'a store \<Rightarrow> 'a MinHeap \<Rightarrow> ('a option list \<times> 'a MinHeap) option" where
  "drain st h = drain_loop st h []"

text \<open>
  The context manager \<^verbatim>\<open>snapshot\<close>: entering appends a copy of the list (of references:
  the nodes are not copied) to the stack; the \<^verbatim>\<open>finally\<close> block pops the stack into
  \<^verbatim>\<open>self.heap\<close> and sets \<^verbatim>\<open>size\<close> to its length. \<^verbatim>\<open>list.pop\<close> on an empty stack raises
  \<^verbatim>\<open>IndexError\<close>.
\<close>

definition snapshot_enter :: "'a MinHeap \<Rightarrow> 'a MinHeap" where
  "snapshot_enter h = h\<lparr>snapshots := snapshots h @ [heap h]\<rparr>"

definition snapshot_exit :: "'a MinHeap \<Rightarrow> error option \<times> 'a MinHeap" where
  "snapshot_exit h =
     (if snapshots h = [] then (Some IndexError, h)
      else (let h1 = h\<lparr>heap := last (snapshots h), snapshots := butlast (snapshots h)\<rparr>
            in (None, h1\<lparr>size' := int (length (heap h1))\<rparr>)))"

fun pop_n :: "'a store \<Rightarrow> 'a MinHeap \<Rightarrow> nat \<Rightarrow> 'a option list \<times> 'a MinHeap" where
  "pop_n st h 0 = ([], h)"
| "pop_n st h (Suc n) =
     (let (v, h1) = pop st h;
          (vs, h2) = pop_n st h1 n
      in (v # vs, h2))"

text \<open>
  \<^verbatim>\<open>k_smallest\<close>: inside a snapshot scope, \<^verbatim>\<open>[self.pop() for _ in range(min(k,
  self.size))]\<close>; the range is empty when \<^verbatim>\<open>min(k, self.size)\<close> is not positive.
\<close>

definition k_smallest :: "'a store \<Rightarrow> 'a MinHeap \<Rightarrow> int \<Rightarrow> (error + 'a option list) \<times> 'a MinHeap" where
  "k_smallest st h k =
     (let h1 = snapshot_enter h;
          (vs, h2) = pop_n st h1 (nat (min k (size' h1)));
          (e, h3) = snapshot_exit h2
      in (case e of None \<Rightarrow> (Inr vs, h3) | Some err \<Rightarrow> (Inl err, h3)))"

text \<open>
  \<^verbatim>\<open>_sift_up(idx)\<close>: \<^verbatim>\<open>temp = self.heap[idx]\<close>, then \<^verbatim>\<open>while idx > 0\<close> with the test
  \<^verbatim>\<open>self.heap[parent_idx] <= temp\<close>, which is \<open>HeapNode_le\<close>. The result is the exception,
  if one was raised, and the list as it stands then.
\<close>

function sift_up_loop :: "'a store \<Rightarrow> nat \<Rightarrow> nat list \<Rightarrow> nat \<Rightarrow> error option \<times> nat list" where
  "sift_up_loop st temp hp idx =
     (if idx > 0 then
        (let parent_idx = (idx - 1) div 2
         in case HeapNode_le (st ! (hp ! parent_idx)) (st ! temp) of
              Inl e \<Rightarrow> (Some e, hp)
            | Inr b \<Rightarrow>
                if b then (None, hp[idx := temp])
                else sift_up_loop st temp (hp[idx := hp ! parent_idx]) parent_idx)
      else (None, hp[idx := temp]))"
  by pat_completeness auto
termination
  by (relation "measure (\<lambda>(st, temp, hp, idx). idx)") auto

definition sift_up :: "'a store \<Rightarrow> nat list \<Rightarrow> nat \<Rightarrow> error option \<times> nat list" where
  "sift_up st hp idx = sift_up_loop st (hp ! idx) hp idx"

text \<open>
  \<^verbatim>\<open>_sift_down(idx)\<close>: \<^verbatim>\<open>temp = self.heap[idx]\<close>, then \<^verbatim>\<open>while True\<close>: the left child is
  compared with \<^verbatim>\<open>temp\<close>, the right child with \<^verbatim>\<open>self.heap[smallest]\<close> (the list as it
  stands, where the slot \<^verbatim>\<open>idx\<close> still holds what was there before \<^verbatim>\<open>temp\<close> is written
  back). The bounds are tested against \<^verbatim>\<open>self.size\<close>; reading the list at an index
  beyond its length raises \<^verbatim>\<open>IndexError\<close>.
\<close>

function sift_down_loop :: "'a store \<Rightarrow> int \<Rightarrow> nat \<Rightarrow> nat list \<Rightarrow> nat \<Rightarrow> error option \<times> nat list" where
  "sift_down_loop st sz temp hp idx =
     (let smallest = idx;
          left = 2 * idx + 1;
          right = 2 * idx + 2
      in if int left < sz \<and> length hp \<le> left then (Some IndexError, hp)
         else (let smallest = (if int left < sz \<and> node_lt st (hp ! left) temp then left else smallest)
               in if int right < sz \<and> length hp \<le> right then (Some IndexError, hp)
                  else (let smallest = (if int right < sz \<and> node_lt st (hp ! right) (hp ! smallest)
                                        then right else smallest)
                        in if smallest = idx then (None, hp[idx := temp])
                           else sift_down_loop st sz temp (hp[idx := hp ! smallest]) smallest)))"
  by pat_completeness auto
termination
  by (relation "measure (\<lambda>(st, sz, temp, hp, idx). nat (sz - int idx))") (auto split: if_splits)

definition sift_down :: "'a store \<Rightarrow> int \<Rightarrow> nat list \<Rightarrow> nat \<Rightarrow> error option \<times> nat list" where
  "sift_down st sz hp idx = sift_down_loop st sz (hp ! idx) hp idx"

text \<open>The index of the first element that satisfies \<open>P\<close>, as the \<^verbatim>\<open>enumerate\<close> loops find it.\<close>

primrec find_first :: "('b \<Rightarrow> bool) \<Rightarrow> 'b list \<Rightarrow> nat option" where
  "find_first P [] = None"
| "find_first P (x # xs) = (if P x then Some 0 else map_option Suc (find_first P xs))"

text \<open>
  \<^verbatim>\<open>update_priority\<close> and \<^verbatim>\<open>remove\<close> return the outcome (the boolean, or the exception
  raised) together with the store and the heap as they stand then.
\<close>

definition update_priority :: "'a store \<Rightarrow> 'a MinHeap \<Rightarrow> 'a \<Rightarrow> int \<Rightarrow> (error + bool) \<times> 'a store \<times> 'a MinHeap" where
  "update_priority st h v new_priority =
     (case find_first (\<lambda>node. val (st ! node) = v) (heap h) of
        None \<Rightarrow> (Inr False, st, h)
      | Some i \<Rightarrow>
          (let node = heap h ! i;
               old_priority = priority (st ! node);
               st1 = st[node := (st ! node)\<lparr>priority := new_priority\<rparr>];
               (e, hp) = (if new_priority < old_priority
                          then sift_up st1 (heap h) i
                          else sift_down st1 (size' h) (heap h) i)
           in (case e of None \<Rightarrow> Inr True | Some err \<Rightarrow> Inl err, st1, h\<lparr>heap := hp\<rparr>)))"

definition remove :: "'a store \<Rightarrow> 'a MinHeap \<Rightarrow> 'a \<Rightarrow> (error + bool) \<times> 'a MinHeap" where
  "remove st h v =
     (case find_first (\<lambda>node. val (st ! node) = v) (heap h) of
        None \<Rightarrow> (Inr False, h)
      | Some i \<Rightarrow>
          (let h1 = h\<lparr>heap := (heap h)[i := last (heap h)]\<rparr>;
               h2 = h1\<lparr>heap := butlast (heap h1)\<rparr>;
               h3 = h2\<lparr>size' := size' h2 - 1\<rparr>
           in if i < length (heap h3)
              then (let (e, hp) = sift_down st (size' h3) (heap h3) i
                    in (case e of None \<Rightarrow> Inr True | Some err \<Rightarrow> Inl err, h3\<lparr>heap := hp\<rparr>))
              else (Inr True, h3)))"


section \<open>Construction, with priorities of any kind\<close>

text \<open>
  The constructor takes whatever values the caller puts in the sequence, and decides by
  \<^verbatim>\<open>isinstance\<close> and by unpacking what each item is. The Python values that items,
  values and priorities range over here: integers, strings, tuples and \<^verbatim>\<open>None\<close>.
\<close>

datatype pyval = PyInt int | PyStr string | PyTuple "pyval list" | PyNone

text \<open>\<^verbatim>\<open>isinstance(item, (int, float))\<close>.\<close>

fun is_number :: "pyval \<Rightarrow> bool" where
  "is_number (PyInt n) = True"
| "is_number v = False"

text \<open>
  \<^verbatim>\<open>priority, value = item\<close>: an integer and \<^verbatim>\<open>None\<close> are not iterable
  (\<^verbatim>\<open>TypeError\<close>); a string yields its characters and a tuple its elements, and the
  unpacking raises \<^verbatim>\<open>ValueError\<close> unless there are exactly two.
\<close>

fun unpack2 :: "pyval \<Rightarrow> error + (pyval \<times> pyval)" where
  "unpack2 (PyInt n) = Inl TypeError"
| "unpack2 PyNone = Inl TypeError"
| "unpack2 (PyStr s) =
     (if length s = 2 then Inr (PyStr [s ! 0], PyStr [s ! 1]) else Inl ValueError)"
| "unpack2 (PyTuple xs) =
     (if length xs = 2 then Inr (xs ! 0, xs ! 1) else Inl ValueError)"

text \<open>
  \<^verbatim>\<open><\<close> on Python values: integers by value, strings and tuples lexicographically
  (a tuple compares the first pair of elements that are not equal, else the lengths),
  and \<^verbatim>\<open>TypeError\<close> between values of different kinds and on \<^verbatim>\<open>None\<close>.
\<close>

fun str_lt :: "string \<Rightarrow> string \<Rightarrow> bool" where
  "str_lt [] [] = False"
| "str_lt [] (y # ys) = True"
| "str_lt (x # xs) [] = False"
| "str_lt (x # xs) (y # ys) =
     (if x = y then str_lt xs ys else (of_char x :: nat) < of_char y)"

fun py_lt :: "pyval \<Rightarrow> pyval \<Rightarrow> error + bool"
  and tuple_lt :: "pyval list \<Rightarrow> pyval list \<Rightarrow> error + bool" where
  "py_lt (PyInt a) (PyInt b) = Inr (a < b)"
| "py_lt (PyStr a) (PyStr b) = Inr (str_lt a b)"
| "py_lt (PyTuple xs) (PyTuple ys) = tuple_lt xs ys"
| "py_lt a b = Inl TypeError"
| "tuple_lt [] [] = Inr False"
| "tuple_lt [] (y # ys) = Inr True"
| "tuple_lt (x # xs) [] = Inr False"
| "tuple_lt (x # xs) (y # ys) = (if x = y then tuple_lt xs ys else py_lt x y)"

text \<open>
  A \<^verbatim>\<open>HeapNode\<close> whose priority is whatever the caller supplied. \<^verbatim>\<open>__lt__\<close> raises what
  the comparison of the two priorities raises.
\<close>

record PyNode =
  py_priority :: pyval
  py_value :: pyval
  py_insertion_count :: int

definition PyNode_lt :: "PyNode \<Rightarrow> PyNode \<Rightarrow> error + bool" where
  "PyNode_lt self other =
     (if py_priority self = py_priority other
      then Inr (py_insertion_count self < py_insertion_count other)
      else py_lt (py_priority self) (py_priority other))"

definition pynode_lt :: "PyNode list \<Rightarrow> nat \<Rightarrow> nat \<Rightarrow> error + bool" where
  "pynode_lt st a b = PyNode_lt (st ! a) (st ! b)"

text \<open>
  \<^verbatim>\<open>heapq._siftdown\<close> and \<^verbatim>\<open>heapq.heappush\<close> with a comparison that can raise: the
  result is the exception, if any, and the list as it stands then.
\<close>

function siftdown_loop_py :: "('b \<Rightarrow> 'b \<Rightarrow> error + bool) \<Rightarrow> 'b \<Rightarrow> 'b list \<Rightarrow> nat \<Rightarrow> nat \<Rightarrow> error option \<times> 'b list" where
  "siftdown_loop_py lt newitem hp startpos pos =
     (if pos > startpos then
        (let parentpos = (pos - 1) div 2;
             parent = hp ! parentpos
         in case lt newitem parent of
              Inl e \<Rightarrow> (Some e, hp)
            | Inr b \<Rightarrow>
                if b then siftdown_loop_py lt newitem (hp[pos := parent]) startpos parentpos
                else (None, hp[pos := newitem]))
      else (None, hp[pos := newitem]))"
  by pat_completeness auto
termination
  by (relation "measure (\<lambda>(lt, newitem, hp, startpos, pos). pos)") auto

definition heappush_py :: "('b \<Rightarrow> 'b \<Rightarrow> error + bool) \<Rightarrow> 'b list \<Rightarrow> 'b \<Rightarrow> error option \<times> 'b list" where
  "heappush_py lt hp item =
     siftdown_loop_py lt ((hp @ [item]) ! (length (hp @ [item]) - 1)) (hp @ [item]) 0 (length (hp @ [item]) - 1)"

text \<open>
  \<^verbatim>\<open>push_with_priority\<close> and \<^verbatim>\<open>push\<close> on such nodes. The node is created, the counter
  advanced and the node appended before the first comparison; \<^verbatim>\<open>size\<close> is incremented
  only if \<^verbatim>\<open>heappush\<close> returns. Without a key function the priority is the value itself.
\<close>

definition push_with_priority_py :: "PyNode list \<Rightarrow> pyval MinHeap \<Rightarrow> pyval \<Rightarrow> pyval \<Rightarrow> error option \<times> PyNode list \<times> pyval MinHeap" where
  "push_with_priority_py st h v p =
     (let node = \<lparr>py_priority = p, py_value = v, py_insertion_count = next_insertion_count h\<rparr>;
          r = length st;
          st1 = st @ [node];
          h1 = h\<lparr>next_insertion_count := next_insertion_count h + 1\<rparr>;
          (e, hp) = heappush_py (pynode_lt st1) (heap h1) r;
          h2 = h1\<lparr>heap := hp\<rparr>
      in case e of
           Some err \<Rightarrow> (Some err, st1, h2)
         | None \<Rightarrow> (None, st1, h2\<lparr>size' := size' h2 + 1\<rparr>))"

definition push_py :: "PyNode list \<Rightarrow> pyval MinHeap \<Rightarrow> pyval \<Rightarrow> error option \<times> PyNode list \<times> pyval MinHeap" where
  "push_py st h v =
     (let p = (case key_func h of Some f \<Rightarrow> PyInt (f v) | None \<Rightarrow> v)
      in push_with_priority_py st h v p)"

text \<open>
  \<^verbatim>\<open>_build_from_items\<close> and \<^verbatim>\<open>__init__(items=None, key=None)\<close>; \<^verbatim>\<open>if items:\<close> skips
  \<^verbatim>\<open>None\<close> and the empty sequence. An exception leaves the constructor: no heap is built.
\<close>

fun build_from_items :: "PyNode list \<Rightarrow> pyval MinHeap \<Rightarrow> pyval list \<Rightarrow> error + (PyNode list \<times> pyval MinHeap)" where
  "build_from_items st h [] = Inr (st, h)"
| "build_from_items st h (item # items) =
     (if is_number item then
        (case push_py st h item of
           (Some e, st1, h1) \<Rightarrow> Inl e
         | (None, st1, h1) \<Rightarrow> build_from_items st1 h1 items)
      else
        (case unpack2 item of
           Inl e \<Rightarrow> Inl e
         | Inr (p, v) \<Rightarrow>
             (case push_with_priority_py st h v p of
                (Some e, st1, h1) \<Rightarrow> Inl e
              | (None, st1, h1) \<Rightarrow> build_from_items st1 h1 items)))"

definition MinHeap_init :: "PyNode list \<Rightarrow> pyval list option \<Rightarrow> (pyval \<Rightarrow> int) option \<Rightarrow> error + (PyNode list \<times> pyval MinHeap)" where
  "MinHeap_init st items key =
     (let self = \<lparr>heap = [], size' = 0, next_insertion_count = 0, key_func = key, snapshots = []\<rparr>
      in case items of
           None \<Rightarrow> Inr (st, self)
         | Some [] \<Rightarrow> Inr (st, self)
         | Some (x # xs) \<Rightarrow> build_from_items st self (x # xs))"

section \<open>Histories of calls\<close>

text \<open>
  A history of calls on one heap. \<open>Snapshot body\<close> is \<^verbatim>\<open>with heap.snapshot(): body\<close>;
  \<open>Try body\<close> is the body run by a caller that catches whatever it raises. \<open>Merge other\<close>
  carries the state of the other heap, whose nodes are in the same store.
\<close>

datatype 'a op =
    Push 'a
  | PushWithPriority 'a int
  | Pop
  | Peek
  | BulkPush "'a list"
  | Merge "'a MinHeap"
  | Drain
  | KSmallest int
  | UpdatePriority 'a int
  | Remove 'a
  | Snapshot "'a op list"
  | Try "'a op list"

text \<open>
  What a history records for the size law: a push (one per element of a bulk push), an
  absorbed node of a merge, a successful pop (those of \<^verbatim>\<open>drain\<close> and \<^verbatim>\<open>k_smallest\<close>
  included), a successful remove. The events of a snapshot scope are marked as rolled
  back when the scope is left.
\<close>

datatype event = Pushed | Absorbed | Popped | Removed | RolledBack event

definition pop_events :: "'a option list \<Rightarrow> event list" where
  "pop_events vs = map (\<lambda>v. Popped) (filter (\<lambda>v. v \<noteq> None) vs)"

type_synonym 'a res = "error option \<times> event list \<times> 'a store \<times> 'a MinHeap"

text \<open>
  A call returns the exception it raised, if any, its events, and the store and the heap
  as they stand then; \<open>None\<close> is a \<^verbatim>\<open>drain\<close> that does not return. A sequence of calls
  stops at the first exception. Leaving a snapshot scope runs the \<^verbatim>\<open>finally\<close> block
  whether or not the body raised; an exception of the block itself replaces the body's.
\<close>

fun exec :: "('a \<Rightarrow> int) \<Rightarrow> 'a op \<Rightarrow> 'a store \<Rightarrow> 'a MinHeap \<Rightarrow> 'a res option"
  and run :: "('a \<Rightarrow> int) \<Rightarrow> 'a op list \<Rightarrow> 'a store \<Rightarrow> 'a MinHeap \<Rightarrow> 'a res option" where
  "exec num (Push v) st h =
     (case push num st h v of (st1, h1) \<Rightarrow> Some (None, [Pushed], st1, h1))"
| "exec num (PushWithPriority v p) st h =
     (case push_with_priority st h v p of (st1, h1) \<Rightarrow> Some (None, [Pushed], st1, h1))"
| "exec num Pop st h =
     (case pop st h of (v, h1) \<Rightarrow> Some (None, pop_events [v], st, h1))"
| "exec num Peek st h = Some (None, [], st, h)"
| "exec num (BulkPush items) st h =
     (case bulk_push num st h items of (st1, h1) \<Rightarrow> Some (None, map (\<lambda>i. Pushed) items, st1, h1))"
| "exec num (Merge other) st h =
     (case merge st h other of (h1, other1) \<Rightarrow> Some (None, map (\<lambda>n. Absorbed) (heap other), st, h1))"
| "exec num Drain st h =
     (case drain st h of
        None \<Rightarrow> None
      | Some (vs, h1) \<Rightarrow> Some (None, pop_events vs, st, h1))"
| "exec num (KSmallest k) st h =
     (let h1 = snapshot_enter h;
          (vs, h2) = pop_n st h1 (nat (min k (size' h1)));
          (e, h3) = snapshot_exit h2
      in Some (e, map RolledBack (pop_events vs), st, h3))"
| "exec num (UpdatePriority v p) st h =
     (case update_priority st h v p of
        (Inl e, st1, h1) \<Rightarrow> Some (Some e, [], st1, h1)
      | (Inr b, st1, h1) \<Rightarrow> Some (None, [], st1, h1))"
| "exec num (Remove v) st h =
     (case remove st h v of
        (Inl e, h1) \<Rightarrow> Some (Some e, [], st, h1)
      | (Inr b, h1) \<Rightarrow> Some (None, if b then [Removed] else [], st, h1))"
| "exec num (Snapshot body) st h =
     (case run num body st (snapshot_enter h) of
        None \<Rightarrow> None
      | Some (e, ev, st1, h1) \<Rightarrow>
          (case snapshot_exit h1 of
             (None, h2) \<Rightarrow> Some (e, map RolledBack ev, st1, h2)
           | (Some e2, h2) \<Rightarrow> Some (Some e2, map RolledBack ev, st1, h2)))"
| "exec num (Try body) st h =
     (case run num body st h of
        None \<Rightarrow> None
      | Some (e, ev, st1, h1) \<Rightarrow> Some (None, ev, st1, h1))"
| "run num [] st h = Some (None, [], st, h)"
| "run num (x # xs) st h =
     (case exec num x st h of
        None \<Rightarrow> None
      | Some (Some e, ev, st1, h1) \<Rightarrow> Some (Some e, ev, st1, h1)
      | Some (None, ev, st1, h1) \<Rightarrow>
          (case run num xs st1 h1 of
             None \<Rightarrow> None
           | Some (e, ev2, st2, h2) \<Rightarrow> Some (e, ev @ ev2, st2, h2)))"


section \<open>Predicates on lists and states\<close>

text \<open>
  The binary-heap order of a list under a key: every element's key is at least its
  parent's. The three variants leave out the edge into a position, bound the children
  of a position by its parent, and leave out the edges out of a position; they describe
  the list while an item is being sifted.
\<close>

definition is_heap :: "('b \<Rightarrow> 'k::linorder) \<Rightarrow> 'b list \<Rightarrow> bool" where
  "is_heap key xs = (\<forall>i. 0 < i \<and> i < length xs \<longrightarrow> key (xs ! ((i - 1) div 2)) \<le> key (xs ! i))"

definition heap_ex :: "('b \<Rightarrow> 'k::linorder) \<Rightarrow> 'b list \<Rightarrow> nat \<Rightarrow> bool" where
  "heap_ex key xs p = (\<forall>i. 0 < i \<and> i < length xs \<and> i \<noteq> p \<longrightarrow> key (xs ! ((i - 1) div 2)) \<le> key (xs ! i))"

definition gp_ok :: "('b \<Rightarrow> 'k::linorder) \<Rightarrow> 'b list \<Rightarrow> nat \<Rightarrow> bool" where
  "gp_ok key xs p = (\<forall>c. 0 < p \<and> c < length xs \<and> 0 < c \<and> (c - 1) div 2 = p \<longrightarrow> key (xs ! ((p - 1) div 2)) \<le> key (xs ! c))"

definition heap_out :: "('b \<Rightarrow> 'k::linorder) \<Rightarrow> 'b list \<Rightarrow> nat \<Rightarrow> bool" where
  "heap_out key xs p = (\<forall>i. 0 < i \<and> i < length xs \<and> (i - 1) div 2 \<noteq> p \<longrightarrow> key (xs ! ((i - 1) div 2)) \<le> key (xs ! i))"

text \<open>The key of a reference: the node's priority, then its sequence number.\<close>

definition nkey :: "'a store \<Rightarrow> nat \<Rightarrow> int \<times> int" where
  "nkey st r = (priority (st ! r), insertion_count (st ! r))"

text \<open>
  The total order of the specification on nodes: priority ascending, then sequence
  number ascending.
\<close>

definition node_le :: "'a HeapNode \<Rightarrow> 'a HeapNode \<Rightarrow> bool" where
  "node_le a b =
     (priority a < priority b \<or> (priority a = priority b \<and> insertion_count a \<le> insertion_count b))"

text \<open>
  The heap invariant of the specification: for all indices \<open>i\<close> in \<open>[0, size)\<close> with a
  child index \<open>c\<close> in \<open>[0, size)\<close>, \<open>node[i] \<le> node[c]\<close>.
\<close>

definition heap_invariant :: "'a store \<Rightarrow> 'a MinHeap \<Rightarrow> bool" where
  "heap_invariant st h =
     (\<forall>i c. int i < size' h \<and> int c < size' h \<and> (c = 2 * i + 1 \<or> c = 2 * i + 2)
        \<longrightarrow> node_le (st ! (heap h ! i)) (st ! (heap h ! c)))"

text \<open>\<^verbatim>\<open>size\<close> is the number of stored nodes.\<close>

definition size_ok :: "'a MinHeap \<Rightarrow> bool" where
  "size_ok h = (size' h = int (length (heap h)))"

text \<open>The state of a heap as the list of its (priority, value) pairs, in storage order.\<close>

definition entries :: "'a store \<Rightarrow> 'a MinHeap \<Rightarrow> (int \<times> 'a) list" where
  "entries st h = map (\<lambda>r. (priority (st ! r), val (st ! r))) (heap h)"

text \<open>
  The references to nodes whose priority is an integer, and a node of the class
  section seen as a node with a priority of any kind.
\<close>

definition numeric_refs :: "PyNode list \<Rightarrow> nat set" where
  "numeric_refs st = {r. r < length st \<and> (\<exists>n. py_priority (st ! r) = PyInt n)}"

definition node_py :: "pyval HeapNode \<Rightarrow> PyNode" where
  "node_py n = \<lparr>py_priority = PyInt (priority n), py_value = val n, py_insertion_count = insertion_count n\<rparr>"

section \<open>Counting the events of a history\<close>









section \<open>The states of the self-test\<close>

text \<open>\<^verbatim>\<open>MinHeap()\<close>, and the heap after the four \<^verbatim>\<open>push_with_priority\<close> calls of the self-test.\<close>

definition empty_heap :: "'a MinHeap" where
  "empty_heap = \<lparr>heap = [], size' = 0, next_insertion_count = 0, key_func = None, snapshots = []\<rparr>"

definition demo_heap :: "(string \<times> int) store \<times> (string \<times> int) MinHeap" where
  "demo_heap =
     fold (\<lambda>(p, v) (st, h). push_with_priority st h v p)
       [(5, (''task1'', 1)), (2, (''task2'', 2)), (8, (''task3'', 3)), (1, (''task4'', 4))]
       ([], empty_heap)"

text \<open>
  The heap after the four pushes of the self-test, on nodes with priorities of any kind.
\<close>

definition py_demo :: "PyNode list \<times> pyval MinHeap" where
  "py_demo =
     fold (\<lambda>(p, v) (st, h). case push_with_priority_py st h v (PyInt p) of (e, st1, h1) \<Rightarrow> (st1, h1))
       [(5, PyTuple [PyStr ''task1'', PyInt 1]), (2, PyTuple [PyStr ''task2'', PyInt 2]),
        (8, PyTuple [PyStr ''task3'', PyInt 3]), (1, PyTuple [PyStr ''task4'', PyInt 4])]
       ([], empty_heap)"

text \<open>A heap of fifteen numbers pushed with themselves as priorities.\<close>

definition fifteen_heap :: "int store \<times> int MinHeap" where
  "fifteen_heap =
     fold (\<lambda>v (st, h). push_with_priority st h v v)
       [1, 10, 2, 11, 12, 20, 3, 13, 14, 15, 16, 21, 22, 23, 4] ([], empty_heap)"

text \<open>A heap of six numbers pushed with themselves as priorities.\<close>

definition six_heap :: "int store \<times> int MinHeap" where
  "six_heap =
     fold (\<lambda>v (st, h). push_with_priority st h v v) [1, 10, 2, 11, 12, 3] ([], empty_heap)"

text \<open>A heap of five numbers pushed with themselves as priorities.\<close>

definition five_heap :: "int store \<times> int MinHeap" where
  "five_heap =
     fold (\<lambda>v (st, h). push_with_priority st h v v) [0, 1, 2, 20, 5] ([], empty_heap)"

text \<open>
  The second heap of the self-test, holding \<^verbatim>\<open>("task5", 5)\<close> with priority 3; its node
  is allocated in the store that holds the four nodes of the first.
\<close>

definition other_heap :: "(string \<times> int) store \<times> (string \<times> int) MinHeap" where
  "other_heap = push_with_priority (fst demo_heap) empty_heap (''task5'', 5) 3"

section \<open>heapq: lengths, elements and order\<close>

declare siftdown_loop.simps [simp del] siftup_loop.simps [simp del]

declare drain_loop.simps [code]

lemma siftdown_loop_length: "length (siftdown_loop lt x hp s pos) = length hp"
  by (induction lt x hp s pos rule: siftdown_loop.induct) (subst siftdown_loop.simps, simp add: Let_def)

lemma siftdown_loop_mset:
  "pos < length hp \<Longrightarrow> mset (siftdown_loop lt x hp s pos) = mset (hp[pos := x])"
proof (induction lt x hp s pos rule: siftdown_loop.induct)
  case (1 lt newitem heap startpos pos)
  show ?case
  proof (cases "startpos < pos \<and> lt newitem (heap ! ((pos - 1) div 2))")
    case True
    define pp where "pp = (pos - 1) div 2"
    have "0 < pos" using True by simp
    then have pp: "pp < pos" by (simp add: pp_def)
    define ys where "ys = heap[pos := newitem]"
    have "siftdown_loop lt newitem heap startpos pos
          = siftdown_loop lt newitem (heap[pos := heap ! pp]) startpos pp"
      using True by (subst siftdown_loop.simps) (simp add: pp_def Let_def)
    also have "mset \<dots> = mset (heap[pos := heap ! pp, pp := newitem])"
      using "1.IH"[of pp "heap ! pp"] True pp "1.prems" by (simp add: pp_def)
    also have "heap[pos := heap ! pp, pp := newitem] = ys[pp := ys ! pos, pos := ys ! pp]"
      using pp "1.prems" by (intro nth_equalityI) (auto simp: ys_def nth_list_update)
    also have "mset \<dots> = mset ys"
      using pp "1.prems" by (intro mset_swap) (simp_all add: ys_def)
    finally show ?thesis by (simp add: ys_def)
  next
    case False
    then show ?thesis by (subst siftdown_loop.simps) (auto simp: Let_def)
  qed
qed

lemma swap_up:
  fixes key :: "'b \<Rightarrow> 'k::linorder"
  assumes "pos < length ys" "0 < pos" "pp = (pos - 1) div 2"
    and lt: "key (ys ! pos) < key (ys ! pp)"
    and ex: "heap_ex key ys pos" and gp: "gp_ok key ys pos"
  shows "heap_ex key (ys[pos := ys ! pp, pp := ys ! pos]) pp"
    and "gp_ok key (ys[pos := ys ! pp, pp := ys ! pos]) pp"
proof -
  let ?zs = "ys[pos := ys ! pp, pp := ys ! pos]"
  have pp: "pp < pos" using assms by simp
  have len: "length ?zs = length ys" by simp
  have zpos: "?zs ! pos = ys ! pp" using pp assms(1) by simp
  have zpp: "?zs ! pp = ys ! pos" using pp assms(1) by simp
  have zother: "\<And>j. j \<noteq> pos \<Longrightarrow> j \<noteq> pp \<Longrightarrow> ?zs ! j = ys ! j" by simp
  show "heap_ex key ?zs pp"
    unfolding heap_ex_def
  proof (intro allI impI)
    fix i assume i: "0 < i \<and> i < length ?zs \<and> i \<noteq> pp"
    let ?q = "(i - 1) div 2"
    have q: "?q < i" using i by arith
    consider (a) "i = pos" | (b) "i \<noteq> pos" "?q = pos" | (c) "i \<noteq> pos" "?q = pp" | (d) "i \<noteq> pos" "?q \<noteq> pos" "?q \<noteq> pp"
      by blast
    then show "key (?zs ! ?q) \<le> key (?zs ! i)"
    proof cases
      case a
      then show ?thesis using zpos zpp lt assms(3) by simp
    next
      case b
      have "i \<noteq> pp" using i by simp
      then have "?zs ! i = ys ! i" using b zother by simp
      moreover have "key (ys ! pp) \<le> key (ys ! i)"
        using gp b i assms(2,3) unfolding gp_ok_def by auto
      ultimately show ?thesis using b zpos by simp
    next
      case c
      have "?zs ! i = ys ! i" using c i zother by simp
      moreover have "key (ys ! pp) \<le> key (ys ! i)"
        using ex c i unfolding heap_ex_def by auto
      ultimately show ?thesis using c zpp lt by simp
    next
      case d
      have "?zs ! i = ys ! i" using d i zother by simp
      moreover have "?zs ! ?q = ys ! ?q" using d zother by simp
      moreover have "key (ys ! ?q) \<le> key (ys ! i)"
        using ex d i unfolding heap_ex_def by auto
      ultimately show ?thesis by simp
    qed
  qed
  show "gp_ok key ?zs pp"
    unfolding gp_ok_def
  proof (intro allI impI)
    fix c assume c: "0 < pp \<and> c < length ?zs \<and> 0 < c \<and> (c - 1) div 2 = pp"
    let ?g = "(pp - 1) div 2"
    have g: "?g < pp" using c by arith
    have zg: "?zs ! ?g = ys ! ?g" using g pp by simp
    have e1: "key (ys ! ?g) \<le> key (ys ! pp)"
      using ex c pp assms(1) unfolding heap_ex_def by auto
    show "key (?zs ! ?g) \<le> key (?zs ! c)"
    proof (cases "c = pos")
      case True
      then show ?thesis using zg zpos e1 by simp
    next
      case False
      have "c \<noteq> pp" using c by auto
      then have "?zs ! c = ys ! c" using False zother by simp
      moreover have "key (ys ! pp) \<le> key (ys ! c)"
        using ex c False unfolding heap_ex_def by auto
      ultimately show ?thesis using zg e1 by simp
    qed
  qed
qed

lemma siftdown_loop_heap:
  fixes key :: "'b \<Rightarrow> 'k::linorder"
  assumes "lt = (\<lambda>a b. key a < key b)"
  shows "pos < length hp \<Longrightarrow> heap_ex key (hp[pos := x]) pos \<Longrightarrow> gp_ok key (hp[pos := x]) pos
         \<Longrightarrow> is_heap key (siftdown_loop lt x hp 0 pos)"
  using assms
proof (induction lt x hp "0::nat" pos rule: siftdown_loop.induct)
  case (1 lt newitem heap pos)
  define pp where "pp = (pos - 1) div 2"
  define ys where "ys = heap[pos := newitem]"
  show ?case
  proof (cases "0 < pos \<and> lt newitem (heap ! pp)")
    case True
    have pp: "pp < pos" using True unfolding pp_def by arith
    have ypos: "ys ! pos = newitem" and ypp: "ys ! pp = heap ! pp"
      using pp "1.prems"(1) by (simp_all add: ys_def)
    have eq: "heap[pos := heap ! pp, pp := newitem] = ys[pos := ys ! pp, pp := ys ! pos]"
      using ypos ypp by (simp add: ys_def)
    have lt: "key (ys ! pos) < key (ys ! pp)"
      using True "1.prems"(4) ypos ypp by simp
    have a: "heap_ex key (ys[pos := ys ! pp, pp := ys ! pos]) pp"
      and b: "gp_ok key (ys[pos := ys ! pp, pp := ys ! pos]) pp"
      using swap_up[of pos ys pp key] "1.prems" True lt by (simp_all add: ys_def pp_def)
    have "is_heap key (siftdown_loop lt newitem (heap[pos := heap ! pp]) 0 pp)"
      using "1.hyps"[of pp "heap ! pp"] True pp "1.prems"(1,4) a b eq by (simp add: pp_def)
    moreover have "siftdown_loop lt newitem heap 0 pos
          = siftdown_loop lt newitem (heap[pos := heap ! pp]) 0 pp"
      using True by (subst siftdown_loop.simps) (simp add: pp_def Let_def)
    ultimately show ?thesis by simp
  next
    case False
    have res: "siftdown_loop lt newitem heap 0 pos = ys"
      using False by (subst siftdown_loop.simps) (auto simp: Let_def pp_def ys_def)
    have "is_heap key ys"
      unfolding is_heap_def
    proof (intro allI impI)
      fix i assume i: "0 < i \<and> i < length ys"
      show "key (ys ! ((i - 1) div 2)) \<le> key (ys ! i)"
      proof (cases "i = pos")
        case True
        then have "\<not> key newitem < key (heap ! pp)" using False i "1.prems"(4) by simp
        moreover have "ys ! pos = newitem" "ys ! pp = heap ! pp"
          using True i "1.prems"(1) by (simp_all add: ys_def pp_def)
        ultimately show ?thesis using True by (simp add: pp_def)
      next
        case False
        then show ?thesis using "1.prems"(2) i unfolding heap_ex_def ys_def by auto
      qed
    qed
    then show ?thesis using res by simp
  qed
qed


lemma child_iff: "(0 < d \<and> (d - 1) div 2 = p) = (d = 2 * p + 1 \<or> d = 2 * p + 2)" for d p :: nat
  by arith

lemma siftup_loop_props:
  "siftup_loop lt hp endpos pos = (h1, p1) \<Longrightarrow> endpos = length hp \<Longrightarrow> pos < length hp \<Longrightarrow>
     length h1 = length hp \<and> p1 < length hp \<and> length hp \<le> 2 * p1 + 1 \<and> pos \<le> p1 \<and>
     mset (h1[p1 := x]) = mset (hp[pos := x])"
proof (induction lt hp endpos pos rule: siftup_loop.induct)
  case (1 lt heap endpos pos)
  show ?case
  proof (cases "2 * pos + 1 < endpos")
    case False
    then have "siftup_loop lt heap endpos pos = (heap, pos)"
      by (subst siftup_loop.simps) (simp add: Let_def)
    then show ?thesis using "1.prems" False by auto
  next
    case True
    define c where "c = (if 2 * pos + 2 < endpos \<and> \<not> lt (heap ! (2 * pos + 1)) (heap ! (2 * pos + 2))
                         then 2 * pos + 2 else 2 * pos + 1)"
    have c: "c < length heap" "pos < c" using True "1.prems"(2) by (auto simp: c_def)
    have step: "siftup_loop lt heap endpos pos = siftup_loop lt (heap[pos := heap ! c]) endpos c"
      using True by (subst siftup_loop.simps) (simp add: Let_def c_def)
    have ih: "length h1 = length (heap[pos := heap ! c]) \<and> p1 < length (heap[pos := heap ! c]) \<and>
          length (heap[pos := heap ! c]) \<le> 2 * p1 + 1 \<and> c \<le> p1 \<and>
          mset (h1[p1 := x]) = mset (heap[pos := heap ! c, c := x])"
      using "1.IH"[of "2 * pos + 1" "2 * pos + 2" c] True "1.prems" step c
      by (simp add: c_def)
    define ys where "ys = heap[pos := x]"
    have "heap[pos := heap ! c, c := x] = ys[pos := ys ! c, c := ys ! pos]"
      using c "1.prems"(3) by (simp add: ys_def)
    moreover have "mset (ys[pos := ys ! c, c := ys ! pos]) = mset ys"
      using c "1.prems"(3) mset_swap[of c ys pos] by (simp add: ys_def)
    ultimately show ?thesis using ih c by (simp add: ys_def)
  qed
qed

lemma move_child_up:
  fixes key :: "'b \<Rightarrow> 'k::linorder"
  assumes c: "c < length hp" "c = 2 * pos + 1 \<or> c = 2 * pos + 2"
    and small: "\<And>d. d < length hp \<Longrightarrow> d = 2 * pos + 1 \<or> d = 2 * pos + 2 \<Longrightarrow> key (hp ! c) \<le> key (hp ! d)"
    and out: "heap_out key hp pos" and gp: "gp_ok key hp pos"
  shows "heap_out key (hp[pos := hp ! c]) c" and "gp_ok key (hp[pos := hp ! c]) c"
proof -
  let ?zs = "hp[pos := hp ! c]"
  have pc: "pos < c" "(c - 1) div 2 = pos" "0 < c" using c(2) by auto
  have zpos: "?zs ! pos = hp ! c" using pc c(1) by simp
  have zother: "\<And>j. j \<noteq> pos \<Longrightarrow> ?zs ! j = hp ! j" by simp
  show "heap_out key ?zs c"
    unfolding heap_out_def
  proof (intro allI impI)
    fix i assume i: "0 < i \<and> i < length ?zs \<and> (i - 1) div 2 \<noteq> c"
    let ?q = "(i - 1) div 2"
    consider (a) "i = pos" | (b) "?q = pos" | (d) "i \<noteq> pos" "?q \<noteq> pos" by blast
    then show "key (?zs ! ?q) \<le> key (?zs ! i)"
    proof cases
      case a
      have q: "?q < pos" using a i by arith
      have "key (hp ! ?q) \<le> key (hp ! c)"
        using gp a i pc c(1) unfolding gp_ok_def by auto
      then show ?thesis using a q zpos by simp
    next
      case b
      have "i = 2 * pos + 1 \<or> i = 2 * pos + 2" using b i child_iff[of i pos] by simp
      then have "key (hp ! c) \<le> key (hp ! i)" using small[of i] i by simp
      moreover have "i \<noteq> pos" using b i by auto
      ultimately show ?thesis using b zpos by simp
    next
      case d
      then show ?thesis using out i unfolding heap_out_def by auto
    qed
  qed
  show "gp_ok key ?zs c"
    unfolding gp_ok_def
  proof (intro allI impI)
    fix d assume d: "0 < c \<and> d < length ?zs \<and> 0 < d \<and> (d - 1) div 2 = c"
    have "d \<noteq> pos" using d pc by auto
    moreover have "key (hp ! c) \<le> key (hp ! d)"
      using out d pc unfolding heap_out_def by auto
    ultimately show "key (?zs ! ((c - 1) div 2)) \<le> key (?zs ! d)"
      using pc zpos by simp
  qed
qed

lemma siftup_loop_heap:
  fixes key :: "'b \<Rightarrow> 'k::linorder"
  shows "siftup_loop lt hp endpos pos = (h1, p1) \<Longrightarrow> endpos = length hp \<Longrightarrow>
     lt = (\<lambda>a b. key a < key b) \<Longrightarrow> pos < length hp \<Longrightarrow>
     heap_out key hp pos \<Longrightarrow> gp_ok key hp pos \<Longrightarrow> heap_out key h1 p1"
proof (induction lt hp endpos pos rule: siftup_loop.induct)
  case (1 lt heap endpos pos)
  show ?case
  proof (cases "2 * pos + 1 < endpos")
    case False
    then have "siftup_loop lt heap endpos pos = (heap, pos)"
      by (subst siftup_loop.simps) (simp add: Let_def)
    then show ?thesis using "1.prems" by auto
  next
    case True
    define c where "c = (if 2 * pos + 2 < endpos \<and> \<not> lt (heap ! (2 * pos + 1)) (heap ! (2 * pos + 2))
                         then 2 * pos + 2 else 2 * pos + 1)"
    have c: "c < length heap" "c = 2 * pos + 1 \<or> c = 2 * pos + 2"
      using True "1.prems"(2) by (auto simp: c_def)
    have step: "siftup_loop lt heap endpos pos = siftup_loop lt (heap[pos := heap ! c]) endpos c"
      using True by (subst siftup_loop.simps) (simp add: Let_def c_def)
    have small: "key (heap ! c) \<le> key (heap ! d)"
      if "d < length heap" "d = 2 * pos + 1 \<or> d = 2 * pos + 2" for d
      using that "1.prems"(2,3) True by (auto simp: c_def)
    have a: "heap_out key (heap[pos := heap ! c]) c" and b: "gp_ok key (heap[pos := heap ! c]) c"
      using move_child_up[OF c small "1.prems"(5,6)] by simp_all
    show ?thesis
      using "1.IH"[of "2 * pos + 1" "2 * pos + 2" c] True "1.prems"(1,2,3) step c a b
      by (simp add: c_def)
  qed
qed


lemma siftup_length: "pos < length hp \<Longrightarrow> length (siftup lt hp pos) = length hp"
proof -
  assume a: "pos < length hp"
  obtain h1 p1 where l: "siftup_loop lt hp (length hp) pos = (h1, p1)" by force
  from siftup_loop_props[OF l refl a] show ?thesis
    by (simp add: siftup_def Let_def l siftdown_def siftdown_loop_length)
qed

lemma siftup_mset: "pos < length hp \<Longrightarrow> mset (siftup lt hp pos) = mset hp"
proof -
  assume a: "pos < length hp"
  obtain h1 p1 where l: "siftup_loop lt hp (length hp) pos = (h1, p1)" by force
  from siftup_loop_props[OF l refl a, of "hp ! pos"]
  have p: "length h1 = length hp" "p1 < length hp" "mset (h1[p1 := hp ! pos]) = mset hp"
    by simp_all
  have "siftup lt hp pos = siftdown_loop lt (hp ! pos) (h1[p1 := hp ! pos]) pos p1"
    using p by (simp add: siftup_def Let_def l siftdown_def)
  then show ?thesis using p siftdown_loop_mset[of p1 "h1[p1 := hp ! pos]" lt "hp ! pos" pos]
    by simp
qed

lemma siftup_heap:
  fixes key :: "'b \<Rightarrow> 'k::linorder"
  assumes "hp \<noteq> []" "heap_out key hp 0"
  shows "is_heap key (siftup (\<lambda>a b. key a < key b) hp 0)"
proof -
  let ?lt = "\<lambda>a b. key a < key b"
  have a: "0 < length hp" using assms(1) by simp
  obtain h1 p1 where l: "siftup_loop ?lt hp (length hp) 0 = (h1, p1)" by force
  from siftup_loop_props[OF l refl a, of "hp ! 0"]
  have p: "length h1 = length hp" "p1 < length hp" "length hp \<le> 2 * p1 + 1"
    by simp_all
  have gp0: "gp_ok key hp 0" by (simp add: gp_ok_def)
  have out: "heap_out key h1 p1"
    using siftup_loop_heap[OF l refl refl a assms(2) gp0] .
  let ?ys = "h1[p1 := hp ! 0]"
  have leaf: "(i - 1) div 2 \<noteq> p1" if "0 < i" "i < length hp" for i
    using that p(3) by auto
  have ex: "heap_ex key ?ys p1"
    unfolding heap_ex_def
  proof (intro allI impI)
    fix i assume i: "0 < i \<and> i < length ?ys \<and> i \<noteq> p1"
    then have "(i - 1) div 2 \<noteq> p1" using leaf[of i] p(1) by simp
    then show "key (?ys ! ((i - 1) div 2)) \<le> key (?ys ! i)"
      using out i unfolding heap_out_def by auto
  qed
  have gp: "gp_ok key ?ys p1"
    unfolding gp_ok_def using leaf p(1) by auto
  have "siftup ?lt hp 0 = siftdown_loop ?lt (hp ! 0) ?ys 0 p1"
    using p by (simp add: siftup_def Let_def l siftdown_def)
  moreover have "is_heap key (siftdown_loop ?lt (hp ! 0) ?ys 0 p1)"
    using siftdown_loop_heap[OF refl, of p1 ?ys key "hp ! 0"] ex gp p by simp
  ultimately show ?thesis by simp
qed


lemma heappush_mset: "mset (heappush lt xs x) = add_mset x (mset xs)"
  using siftdown_loop_mset[of "length xs" "xs @ [x]" lt x 0]
  by (simp add: heappush_def siftdown_def)

lemma heappush_heap:
  fixes key :: "'b \<Rightarrow> 'k::linorder"
  assumes "is_heap key xs"
  shows "is_heap key (heappush (\<lambda>a b. key a < key b) xs x)"
proof -
  let ?ys = "xs @ [x]"
  have ex: "heap_ex key ?ys (length xs)"
    unfolding heap_ex_def
  proof (intro allI impI)
    fix i assume i: "0 < i \<and> i < length ?ys \<and> i \<noteq> length xs"
    then have "i < length xs" by simp
    moreover from this have "(i - 1) div 2 < length xs" by simp
    ultimately show "key (?ys ! ((i - 1) div 2)) \<le> key (?ys ! i)"
      using assms i unfolding is_heap_def by (simp add: nth_append)
  qed
  have gp: "gp_ok key ?ys (length xs)"
    unfolding gp_ok_def by auto
  show ?thesis
    using siftdown_loop_heap[OF refl, of "length xs" ?ys key x] ex gp
    by (simp add: heappush_def siftdown_def)
qed

lemma is_heap_root_min:
  fixes key :: "'b \<Rightarrow> 'k::linorder"
  assumes "is_heap key xs"
  shows "i < length xs \<Longrightarrow> key (xs ! 0) \<le> key (xs ! i)"
proof (induction i rule: less_induct)
  case (less i)
  show ?case
  proof (cases "i = 0")
    case True
    then show ?thesis by simp
  next
    case False
    then have q: "(i - 1) div 2 < i" by simp
    then have "key (xs ! 0) \<le> key (xs ! ((i - 1) div 2))"
      using less by simp
    moreover have "key (xs ! ((i - 1) div 2)) \<le> key (xs ! i)"
      using assms False less.prems unfolding is_heap_def by simp
    ultimately show ?thesis by simp
  qed
qed

lemma is_heap_butlast:
  fixes key :: "'b \<Rightarrow> 'k::linorder"
  assumes "is_heap key xs"
  shows "is_heap key (butlast xs)"
  unfolding is_heap_def
proof (intro allI impI)
  fix i assume i: "0 < i \<and> i < length (butlast xs)"
  then have "i < length xs - 1" by simp
  then have "i < length xs" "(i - 1) div 2 < length xs - 1" by arith+
  then show "key (butlast xs ! ((i - 1) div 2)) \<le> key (butlast xs ! i)"
    using assms i unfolding is_heap_def by (simp add: nth_butlast)
qed

lemma heappop_result:
  assumes "xs \<noteq> []" "heappop lt xs = (r, xs')"
  shows "r = xs ! 0" and "mset xs = add_mset r (mset xs')" and "Suc (length xs') = length xs"
proof -
  obtain h1 l where xs: "xs = h1 @ [l]" using assms(1) by (metis rev_exhaust)
  show "r = xs ! 0" using assms(2) xs
    by (cases h1) (auto simp: heappop_def Let_def split: if_splits)
  show "mset xs = add_mset r (mset xs')"
  proof (cases "h1 = []")
    case True
    then show ?thesis using assms(2) xs by (simp add: heappop_def)
  next
    case False
    then have r: "r = h1 ! 0" "xs' = siftup lt (h1[0 := l]) 0"
      using assms(2) xs by (auto simp: heappop_def Let_def)
    have "mset xs' = mset (h1[0 := l])" using False r by (simp add: siftup_mset)
    also have "\<dots> = add_mset l (mset h1 - {#h1 ! 0#})"
      using False by (simp add: mset_update)
    finally show ?thesis using r False xs by simp
  qed
  show "Suc (length xs') = length xs"
    using assms(2) xs by (auto simp: heappop_def Let_def siftup_length split: if_splits)
qed

lemma heappop_heap:
  fixes key :: "'b \<Rightarrow> 'k::linorder"
  assumes "xs \<noteq> []" "is_heap key xs" "heappop (\<lambda>a b. key a < key b) xs = (r, xs')"
  shows "is_heap key xs'"
proof (cases "butlast xs = []")
  case True
  then show ?thesis using assms(3) by (simp add: heappop_def is_heap_def)
next
  case False
  let ?h = "(butlast xs)[0 := last xs]"
  have xs': "xs' = siftup (\<lambda>a b. key a < key b) ?h 0"
    using False assms(3) by (auto simp: heappop_def Let_def)
  have hb: "is_heap key (butlast xs)" using assms(2) by (rule is_heap_butlast)
  have "heap_out key ?h 0"
    unfolding heap_out_def
  proof (intro allI impI)
    fix i assume i: "0 < i \<and> i < length ?h \<and> (i - 1) div 2 \<noteq> 0"
    then show "key (?h ! ((i - 1) div 2)) \<le> key (?h ! i)"
      using hb unfolding is_heap_def by simp
  qed
  then show ?thesis using siftup_heap[of ?h key] False xs' by simp
qed

lemma fold_siftup:
  "\<forall>i\<in>set js. i < length x \<Longrightarrow>
     length (fold (\<lambda>i x. siftup lt x i) js x) = length x \<and>
     mset (fold (\<lambda>i x. siftup lt x i) js x) = mset x"
  by (induction js arbitrary: x) (simp_all add: siftup_length siftup_mset)

lemma heapify_range: "\<forall>i\<in>set (rev [0..<length x div 2]). i < length x"
  by auto


lemma heapify_mset: "mset (heapify lt x) = mset x"
  using fold_siftup[OF heapify_range, where lt = lt] by (simp add: heapify_def)



section \<open>Removal and priority updates on concrete heaps\<close>

text \<open>
  C1 (the heap invariant after every public mutating call), at \<^verbatim>\<open>remove\<close>. The heap
  built by pushing 1, 10, 2, 11, 12, 3 stores them in this order and satisfies the
  invariant. \<^verbatim>\<open>remove(11)\<close> moves the last node (3) into slot 3 and only sifts down:
  afterwards the node at index 3 is less than its parent at index 1 (10), with size 5.
\<close>

theorem remove_breaks_invariant:
  "entries (fst six_heap) (snd six_heap) = [(1, 1), (10, 10), (2, 2), (11, 11), (12, 12), (3, 3)] \<and>
   (case remove (fst six_heap) (snd six_heap) 11 of
      (r, h) \<Rightarrow>
        r = Inr True \<and> size' h = 5 \<and>
        entries (fst six_heap) h = [(1, 1), (10, 10), (2, 2), (3, 3), (12, 12)] \<and>
        HeapNode_lt (fst six_heap ! (heap h ! 3)) (fst six_heap ! (heap h ! 1)))"
  by code_simp

text \<open>
  C2 (a snapshot scope restores the multiset of (priority, value) pairs), at a scope
  whose body calls \<^verbatim>\<open>update_priority(("task4", 4), 10)\<close> on the heap of the self-test.
  The scope leaves normally; the restored list holds the same node objects, and the
  node of task4 keeps the priority 10 assigned inside the scope.
\<close>

theorem snapshot_keeps_updated_priority:
  "entries (fst demo_heap) (snd demo_heap) =
     [(1, (''task4'', 4)), (2, (''task2'', 2)), (8, (''task3'', 3)), (5, (''task1'', 1))] \<and>
   (case run (\<lambda>v. 0) [Snapshot [UpdatePriority (''task4'', 4) 10]] (fst demo_heap) (snd demo_heap) of
      Some (e, ev, st, h) \<Rightarrow>
        e = None \<and> size' h = 4 \<and>
        entries st h =
          [(10, (''task4'', 4)), (2, (''task2'', 2)), (8, (''task3'', 3)), (5, (''task1'', 1))]
    | None \<Rightarrow> False)"
  by code_simp

text \<open>
  C7 (\<^verbatim>\<open>update_priority\<close> sifts up after a decrease, returns True and never raises), at
  the call of the self-test, \<^verbatim>\<open>update_priority(("task3", 3), 0)\<close>: the node is at index
  2, its priority is overwritten, and the first comparison of \<^verbatim>\<open>_sift_up\<close> raises
  \<^verbatim>\<open>TypeError\<close>. The list is left as it was, so \<^verbatim>\<open>peek\<close> still returns task4.
\<close>

theorem update_priority_raises:
  "(case update_priority (fst demo_heap) (snd demo_heap) (''task3'', 3) 0 of
      (r, st, h) \<Rightarrow>
        r = Inl TypeError \<and>
        entries st h =
          [(1, (''task4'', 4)), (2, (''task2'', 2)), (0, (''task3'', 3)), (5, (''task1'', 1))] \<and>
        peek st h = Some (1, (''task4'', 4)))"
  by code_simp

text \<open>
  The repair after an increase can fail as well. The heap built by pushing 0, 1, 2, 20,
  5 stores them in this order. \<^verbatim>\<open>update_priority(0, 10)\<close> sifts down from the root: the
  node of 1 moves up, and at index 1 the right child (5) is compared with the slot's
  old content (1) instead of the sifted node (10), so the loop stops there. Afterwards
  the node at index 4 (5) is less than its parent at index 1 (10).
\<close>

lemma update_priority_increase_breaks_invariant:
  "entries (fst five_heap) (snd five_heap) = [(0, 0), (1, 1), (2, 2), (20, 20), (5, 5)] \<and>
   (case update_priority (fst five_heap) (snd five_heap) 0 10 of
      (r, st, h) \<Rightarrow>
        r = Inr True \<and> size' h = 5 \<and>
        entries st h = [(1, 1), (10, 0), (2, 2), (20, 20), (5, 5)] \<and>
        HeapNode_lt (st ! (heap h ! 4)) (st ! (heap h ! 1)))"
  by code_simp

text \<open>
  C4 (draining yields non-decreasing priorities), after the same slip of \<^verbatim>\<open>remove\<close>.
  The heap built by pushing 1, 10, 2, 11, 12, 20, 3, 13, 14, 15, 16, 21, 22, 23, 4 stores
  them in this order. \<^verbatim>\<open>remove(11)\<close> moves the last node (4) into slot 3, under 10;
  \<^verbatim>\<open>drain\<close> then yields 10 before 4.
\<close>

theorem drain_after_remove_unsorted:
  "map fst (entries (fst fifteen_heap) (snd fifteen_heap)) =
     [1, 10, 2, 11, 12, 20, 3, 13, 14, 15, 16, 21, 22, 23, 4] \<and>
   (case remove (fst fifteen_heap) (snd fifteen_heap) 11 of
      (r, h) \<Rightarrow>
        r = Inr True \<and>
        map fst (entries (fst fifteen_heap) h) =
          [1, 10, 2, 4, 12, 20, 3, 13, 14, 15, 16, 21, 22, 23] \<and>
        map_option fst (drain (fst fifteen_heap) h) =
          Some [Some 1, Some 2, Some 3, Some 10, Some 4, Some 12, Some 13, Some 14, Some 15,
                Some 16, Some 20, Some 21, Some 22, Some 23])"
  by code_simp

text \<open>
  C5 (\<^verbatim>\<open>k_smallest\<close> returns the smallest values), on the same heap after
  \<^verbatim>\<open>remove(11)\<close>: \<^verbatim>\<open>k_smallest(4)\<close> returns 1, 2, 3, 10 while 4 is stored.
\<close>

theorem k_smallest_after_remove_misses_smaller:
  "(case remove (fst fifteen_heap) (snd fifteen_heap) 11 of
      (r, h) \<Rightarrow>
        r = Inr True \<and>
        fst (k_smallest (fst fifteen_heap) h 4) = Inr [Some 1, Some 2, Some 3, Some 10] \<and>
        (4, 4) \<in> set (entries (fst fifteen_heap) h))"
  by code_simp

text \<open>
  C9 (\<^verbatim>\<open>peek\<close> and \<^verbatim>\<open>pop\<close> return the minimum), after the slips of \<^verbatim>\<open>snapshot\<close> and of
  \<^verbatim>\<open>remove\<close>. After the scope with \<^verbatim>\<open>update_priority(("task4", 4), 10)\<close> on the heap of
  the self-test, \<^verbatim>\<open>size\<close> is the length of the list, \<^verbatim>\<open>peek\<close> returns (10, task4) and
  \<^verbatim>\<open>pop\<close> returns task4 while (2, task2) is stored. On the heap of fifteen numbers after
  \<^verbatim>\<open>remove(11)\<close> and three pops, \<^verbatim>\<open>peek\<close> returns (10, 10) and \<^verbatim>\<open>pop\<close> returns 10 while
  (4, 4) is stored.
\<close>

theorem peek_pop_not_minimum:
  "(case run (\<lambda>v. 0) [Snapshot [UpdatePriority (''task4'', 4) 10]] (fst demo_heap) (snd demo_heap) of
      Some (e, ev, st, h) \<Rightarrow>
        e = None \<and> size_ok h \<and>
        peek st h = Some (10, (''task4'', 4)) \<and>
        fst (pop st h) = Some (''task4'', 4) \<and>
        (2, (''task2'', 2)) \<in> set (entries st h)
    | None \<Rightarrow> False) \<and>
   (case remove (fst fifteen_heap) (snd fifteen_heap) 11 of
      (r, h) \<Rightarrow>
        (case pop_n (fst fifteen_heap) h 3 of
           (vs, h3) \<Rightarrow>
             vs = [Some 1, Some 2, Some 3] \<and> size_ok h3 \<and>
             peek (fst fifteen_heap) h3 = Some (10, 10) \<and>
             fst (pop (fst fifteen_heap) h3) = Some 10 \<and>
             (4, 4) \<in> set (entries (fst fifteen_heap) h3)))"
  by code_simp

section \<open>Merge\<close>

text \<open>
  C3, as the code has it: \<^verbatim>\<open>merge\<close> leaves the other heap as it was; the size of this
  heap becomes the sum of the two sizes, its list holds the references of both lists,
  and the nodes they refer to (hence their sequence numbers) are untouched.
\<close>

theorem merge_shares_nodes:
  "snd (merge st h other) = other \<and>
   size' (fst (merge st h other)) = size' h + size' other \<and>
   mset (heap (fst (merge st h other))) = mset (heap h) + mset (heap other) \<and>
   mset (map (\<lambda>r. insertion_count (st ! r)) (heap (fst (merge st h other)))) =
     mset (map (\<lambda>r. insertion_count (st ! r)) (heap h)) +
     mset (map (\<lambda>r. insertion_count (st ! r)) (heap other))"
proof -
  have m: "mset (heap (fst (merge st h other))) = mset (heap h) + mset (heap other)"
    by (simp add: merge_def heapify'_def heapify_mset)
  have "mset (map (\<lambda>r. insertion_count (st ! r)) (heap (fst (merge st h other)))) =
        image_mset (\<lambda>r. insertion_count (st ! r)) (mset (heap (fst (merge st h other))))"
    by simp
  also have "\<dots> = mset (map (\<lambda>r. insertion_count (st ! r)) (heap h)) +
        mset (map (\<lambda>r. insertion_count (st ! r)) (heap other))"
    unfolding m by simp
  finally show ?thesis using m by (simp add: merge_def heapify'_def)
qed

text \<open>
  C3 as stated (the other heap is emptied) fails on the merge of the self-test: the
  other heap still holds its node, with size 1.
\<close>

theorem merge_does_not_empty_other:
  "(case merge (fst other_heap) (snd demo_heap) (snd other_heap) of
      (h1, other1) \<Rightarrow> size' h1 = 5 \<and> length (heap other1) = 1 \<and> size' other1 = 1)"
  by code_simp

section \<open>Construction from raw values\<close>

declare siftdown_loop_py.simps [simp del]

lemma siftdown_loop_py_total:
  "(\<forall>a\<in>S. \<forall>b\<in>S. \<exists>c. lt a b = Inr c) \<Longrightarrow> newitem \<in> S \<Longrightarrow> set hp \<subseteq> S \<Longrightarrow> pos < length hp \<Longrightarrow>
         fst (siftdown_loop_py lt newitem hp s pos) = None \<and>
         set (snd (siftdown_loop_py lt newitem hp s pos)) \<subseteq> S \<and>
         length (snd (siftdown_loop_py lt newitem hp s pos)) = length hp"
proof (induction lt newitem hp s pos rule: siftdown_loop_py.induct)
  case (1 lt newitem hp startpos pos)
  define pp where "pp = (pos - 1) div 2"
  have upd: "set (hp[pos := x]) \<subseteq> S" if "x \<in> S" for x
    using that "1.prems"(3) set_update_subset_insert[of hp pos x] by auto
  show ?case
  proof (cases "startpos < pos")
    case False
    then show ?thesis using upd[OF "1.prems"(2)]
      by (subst (1 2 3) siftdown_loop_py.simps) simp
  next
    case True
    then have pp: "pp < length hp" using "1.prems"(4) unfolding pp_def by arith
    then have par: "hp ! pp \<in> S" using "1.prems"(3) by auto
    obtain c where c: "lt newitem (hp ! pp) = Inr c"
      using "1.prems"(1,2) par by blast
    show ?thesis
    proof (cases c)
      case False
      then show ?thesis using True c upd[OF "1.prems"(2)]
        by (subst (1 2 3) siftdown_loop_py.simps) (simp add: pp_def Let_def)
    next
      case cT: True
      have ih: "fst (siftdown_loop_py lt newitem (hp[pos := hp ! pp]) startpos pp) = None \<and>
         set (snd (siftdown_loop_py lt newitem (hp[pos := hp ! pp]) startpos pp)) \<subseteq> S \<and>
         length (snd (siftdown_loop_py lt newitem (hp[pos := hp ! pp]) startpos pp)) = length hp"
        using "1.IH"[of pp "hp ! pp" c] True c cT "1.prems"(1,2) upd[OF par] pp
        by (simp add: pp_def)
      show ?thesis using True c cT ih
        by (subst (1 2 3) siftdown_loop_py.simps) (simp add: pp_def Let_def)
    qed
  qed
qed

lemma pynode_lt_numeric:
  "a \<in> numeric_refs st \<Longrightarrow> b \<in> numeric_refs st \<Longrightarrow> \<exists>c. pynode_lt st a b = Inr c"
  by (auto simp: numeric_refs_def pynode_lt_def PyNode_lt_def)

lemma push_number:
  assumes "key_func h = None" "set (heap h) \<subseteq> numeric_refs st"
  shows "\<exists>st1 h1. push_py st h (PyInt n) = (None, st1, h1) \<and> key_func h1 = None \<and>
           set (heap h1) \<subseteq> numeric_refs st1"
proof -
  define node where "node = \<lparr>py_priority = PyInt n, py_value = PyInt n, py_insertion_count = next_insertion_count h\<rparr>"
  define st1 where "st1 = st @ [node]"
  have sub: "numeric_refs st \<subseteq> numeric_refs st1"
    by (auto simp: numeric_refs_def st1_def nth_append)
  have new: "length st \<in> numeric_refs st1"
    by (simp add: numeric_refs_def st1_def node_def)
  define res where "res = siftdown_loop_py (pynode_lt st1) (length st) (heap h @ [length st]) 0 (length (heap h))"
  have tot: "\<forall>a\<in>numeric_refs st1. \<forall>b\<in>numeric_refs st1. \<exists>c. pynode_lt st1 a b = Inr c"
    using pynode_lt_numeric by blast
  have "fst res = None \<and> set (snd res) \<subseteq> numeric_refs st1 \<and> length (snd res) = length (heap h @ [length st])"
    unfolding res_def
    by (rule siftdown_loop_py_total[OF tot new]) (use new sub assms(2) in auto)
  then obtain hp1 where r: "res = (None, hp1)" "set hp1 \<subseteq> numeric_refs st1"
    by (cases res) auto
  have "push_py st h (PyInt n) =
          (None, st1, h\<lparr>next_insertion_count := next_insertion_count h + 1, heap := hp1, size' := size' h + 1\<rparr>)"
    using assms(1) r(1)
    by (simp add: push_py_def push_with_priority_py_def Let_def heappush_py_def
        node_def[symmetric] st1_def[symmetric] res_def[symmetric])
  then show ?thesis using assms(1) r(2) by simp
qed

lemma build_numbers:
  assumes "list_all is_number pre"
  shows "key_func h = None \<Longrightarrow> set (heap h) \<subseteq> numeric_refs st \<Longrightarrow>
           \<exists>st1 h1. build_from_items st h (pre @ rest) = build_from_items st1 h1 rest"
  using assms
proof (induction pre arbitrary: st h)
  case Nil
  then show ?case by auto
next
  case (Cons y ys)
  then have "is_number y" by simp
  then obtain n where y: "y = PyInt n" by (cases y) simp_all
  from push_number[OF Cons.prems(1,2), of n] obtain st1 h1 where
    p: "push_py st h (PyInt n) = (None, st1, h1)" "key_func h1 = None"
       "set (heap h1) \<subseteq> numeric_refs st1"
    by blast
  have "\<exists>st2 h2. build_from_items st1 h1 (ys @ rest) = build_from_items st2 h2 rest"
    using Cons.IH[OF p(2,3)] Cons.prems(3) by simp
  then show ?case using y p(1) by simp
qed

lemma MinHeap_init_build:
  "MinHeap_init st (Some items) key =
     build_from_items st \<lparr>heap = [], size' = 0, next_insertion_count = 0, key_func = key, snapshots = []\<rparr> items"
  by (cases items) (simp_all add: MinHeap_init_def)

text \<open>
  C6, as the code has it. With no key function, and after any numbers, a raw value that
  is not iterable (\<^verbatim>\<open>None\<close>) makes the constructor fail with \<^verbatim>\<open>TypeError\<close>, and a
  string or tuple that does not have exactly two elements makes it fail with
  \<^verbatim>\<open>ValueError\<close>: the exceptions of \<^verbatim>\<open>priority, value = item\<close>. A value that unpacks
  into exactly two elements is taken as a (priority, value) pair: construction from a
  string of two characters alone succeeds, with the first character as priority.
\<close>

theorem init_raw_value:
  assumes "list_all is_number pre"
  shows "MinHeap_init st (Some (pre @ PyNone # post)) None = Inl TypeError \<and>
         (length s \<noteq> 2 \<longrightarrow> MinHeap_init st (Some (pre @ PyStr s # post)) None = Inl ValueError) \<and>
         (length xs \<noteq> 2 \<longrightarrow> MinHeap_init st (Some (pre @ PyTuple xs # post)) None = Inl ValueError) \<and>
         MinHeap_init st (Some [PyStr [a, b]]) None =
           Inr (st @ [\<lparr>py_priority = PyStr [a], py_value = PyStr [b], py_insertion_count = 0\<rparr>],
                \<lparr>heap = [length st], size' = 1, next_insertion_count = 1, key_func = None, snapshots = []\<rparr>)"
proof -
  let ?self = "\<lparr>heap = [], size' = 0, next_insertion_count = 0, key_func = None, snapshots = []\<rparr> :: pyval MinHeap"
  have raw: "\<exists>st1 h1. MinHeap_init st (Some (pre @ x # post)) None = build_from_items st1 h1 (x # post)" for x
    using build_numbers[OF assms, of ?self st "x # post"]
    by (simp add: MinHeap_init_build numeric_refs_def)
  have a: "MinHeap_init st (Some (pre @ PyNone # post)) None = Inl TypeError"
    using raw[of PyNone] by auto
  have b: "length s \<noteq> 2 \<longrightarrow> MinHeap_init st (Some (pre @ PyStr s # post)) None = Inl ValueError"
    using raw[of "PyStr s"] by auto
  have c: "length xs \<noteq> 2 \<longrightarrow> MinHeap_init st (Some (pre @ PyTuple xs # post)) None = Inl ValueError"
    using raw[of "PyTuple xs"] by auto
  have d: "MinHeap_init st (Some [PyStr [a, b]]) None =
           Inr (st @ [\<lparr>py_priority = PyStr [a], py_value = PyStr [b], py_insertion_count = 0\<rparr>],
                \<lparr>heap = [length st], size' = 1, next_insertion_count = 1, key_func = None, snapshots = []\<rparr>)"
    by (simp add: MinHeap_init_def push_with_priority_py_def heappush_py_def Let_def
        siftdown_loop_py.simps)
  show ?thesis using a b c d by blast
qed

theorem init_raw_value_witness:
  "list_all is_number [PyInt 3, PyInt 1] \<and>
   MinHeap_init [] (Some ([PyInt 3, PyInt 1] @ PyNone # [PyInt 2])) None = Inl TypeError \<and>
   MinHeap_init [] (Some ([PyInt 3, PyInt 1] @ PyStr ''task'' # [PyInt 2])) None = Inl ValueError \<and>
   MinHeap_init [] (Some ([PyInt 3, PyInt 1] @ PyTuple [PyInt 5] # [PyInt 2])) None = Inl ValueError \<and>
   MinHeap_init [] (Some [PyStr ''ab'']) None =
     Inr ([\<lparr>py_priority = PyStr ''a'', py_value = PyStr ''b'', py_insertion_count = 0\<rparr>],
          \<lparr>heap = [0], size' = 1, next_insertion_count = 1, key_func = None, snapshots = []\<rparr>)"
proof -
  have h: "list_all is_number [PyInt 3, PyInt 1]" by simp
  show ?thesis
    using init_raw_value[OF h, of "[]" "[PyInt 2]" "''task''" "[PyInt 5]" "CHR ''a''" "CHR ''b''"] h
    by simp
qed

text \<open>
  C6 as stated (the failure is a \<^verbatim>\<open>ConfigurationError\<close>) fails for a raw string of
  three characters and no key function: the constructor raises \<^verbatim>\<open>ValueError\<close>.
\<close>

theorem init_raw_string_raises_ValueError:
  "MinHeap_init [] (Some [PyStr ''abc'']) None = Inl ValueError \<and>
   MinHeap_init [] (Some [PyStr ''abc'']) None \<noteq> Inl ConfigurationError"
  by (simp add: MinHeap_init_def)

section \<open>Pushing a priority that is not a number\<close>

text \<open>
  On nodes whose priorities are integers, \<^verbatim>\<open>push_with_priority\<close> with a priority of
  any kind does what \<^verbatim>\<open>push_with_priority\<close> of the class section does, and raises
  nothing.
\<close>

lemma siftdown_loop_py_pure:
  "(\<forall>a\<in>S. \<forall>b\<in>S. lte a b = Inr (lt a b)) \<Longrightarrow> newitem \<in> S \<Longrightarrow> set hp \<subseteq> S \<Longrightarrow> pos < length hp \<Longrightarrow>
     siftdown_loop_py lte newitem hp s pos = (None, siftdown_loop lt newitem hp s pos)"
proof (induction lt newitem hp s pos rule: siftdown_loop.induct)
  case (1 lt newitem hp startpos pos)
  define pp where "pp = (pos - 1) div 2"
  show ?case
  proof (cases "startpos < pos")
    case False
    then show ?thesis
      by (subst siftdown_loop_py.simps, subst siftdown_loop.simps) simp
  next
    case True
    then have pp: "pp < length hp" using "1.prems"(4) unfolding pp_def by arith
    then have par: "hp ! pp \<in> S" using "1.prems"(3) by auto
    have c: "lte newitem (hp ! pp) = Inr (lt newitem (hp ! pp))"
      using "1.prems"(1,2) par by blast
    show ?thesis
    proof (cases "lt newitem (hp ! pp)")
      case False
      then show ?thesis using True c
        by (subst siftdown_loop_py.simps, subst siftdown_loop.simps) (simp add: pp_def Let_def)
    next
      case cT: True
      have "set (hp[pos := hp ! pp]) \<subseteq> S"
        using par "1.prems"(3) set_update_subset_insert[of hp pos "hp ! pp"] by auto
      then have ih: "siftdown_loop_py lte newitem (hp[pos := hp ! pp]) startpos pp =
           (None, siftdown_loop lt newitem (hp[pos := hp ! pp]) startpos pp)"
        using "1.IH"[of pp "hp ! pp"] True cT "1.prems"(1,2) pp
        by (simp add: pp_def)
      show ?thesis using True c cT ih
        by (subst siftdown_loop_py.simps, subst siftdown_loop.simps) (simp add: pp_def Let_def)
    qed
  qed
qed

lemma pynode_lt_node_py:
  "a < length st \<Longrightarrow> b < length st \<Longrightarrow> pynode_lt (map node_py st) a b = Inr (node_lt st a b)"
  by (simp add: pynode_lt_def PyNode_lt_def node_py_def node_lt_def HeapNode_lt_def)

lemma push_with_priority_py_numeric:
  assumes "\<forall>r\<in>set (heap h). r < length st"
  shows "push_with_priority_py (map node_py st) h v (PyInt p) =
           (case push_with_priority st h v p of (st1, h1) \<Rightarrow> (None, map node_py st1, h1))"
proof -
  define node where "node = \<lparr>priority = p, val = v, insertion_count = next_insertion_count h\<rparr>"
  define st1 where "st1 = st @ [node]"
  have m: "map node_py st @ [\<lparr>py_priority = PyInt p, py_value = v, py_insertion_count = next_insertion_count h\<rparr>]
           = map node_py st1"
    by (simp add: st1_def node_def node_py_def)
  have tot: "\<forall>a\<in>{r. r < length st1}. \<forall>b\<in>{r. r < length st1}.
               pynode_lt (map node_py st1) a b = Inr (node_lt st1 a b)"
    using pynode_lt_node_py by blast
  have "siftdown_loop_py (pynode_lt (map node_py st1)) (length st) (heap h @ [length st]) 0 (length (heap h)) =
        (None, siftdown_loop (node_lt st1) (length st) (heap h @ [length st]) 0 (length (heap h)))"
    by (rule siftdown_loop_py_pure[OF tot]) (use assms in \<open>auto simp: st1_def\<close>)
  then show ?thesis
    by (simp add: push_with_priority_py_def push_with_priority_def Let_def heappush_py_def
        heappush_def siftdown_def m node_def[symmetric] st1_def[symmetric])
qed


text \<open>
  The \<^verbatim>\<open>bulk_push\<close> of the self-test pushes \<^verbatim>\<open>("task6", 6)\<close> on a heap without key
  function: the tuple is the priority, its comparison with the parent's number raises
  \<^verbatim>\<open>TypeError\<close>, and the exception leaves the node in the list (length 5) and the
  counter advanced (5) while \<^verbatim>\<open>size\<close> is still 4.
\<close>

lemma push_raises_after_append:
  "size' (snd py_demo) = 4 \<and> length (heap (snd py_demo)) = 4 \<and>
   (case push_py (fst py_demo) (snd py_demo) (PyTuple [PyStr ''task6'', PyInt 6]) of
      (e, st, h) \<Rightarrow>
        e = Some TypeError \<and> size' h = 4 \<and> length (heap h) = 5 \<and> next_insertion_count h = 5 \<and>
        length st = 5)"
  by code_simp


section \<open>Popping from a heap that satisfies the invariant\<close>

lemma node_lt_nkey: "node_lt st = (\<lambda>a b. nkey st a < nkey st b)"
  by (intro ext) (auto simp: node_lt_def nkey_def HeapNode_lt_def less_prod_def)

lemma node_le_nkey: "node_le (st ! a) (st ! b) = (nkey st a \<le> nkey st b)"
  by (auto simp: node_le_def nkey_def less_eq_prod_def)

lemma node_le_not_lt: "node_le a b = (\<not> HeapNode_lt b a)"
  by (auto simp: node_le_def HeapNode_lt_def)

lemma heap_invariant_is_heap:
  assumes "size_ok h"
  shows "heap_invariant st h = is_heap (nkey st) (heap h)"
proof
  assume inv: "heap_invariant st h"
  show "is_heap (nkey st) (heap h)"
    unfolding is_heap_def
  proof (intro allI impI)
    fix i assume i: "0 < i \<and> i < length (heap h)"
    have c: "i = 2 * ((i - 1) div 2) + 1 \<or> i = 2 * ((i - 1) div 2) + 2"
      using i child_iff[of i "(i - 1) div 2"] by simp
    have "(i - 1) div 2 < i" using i by arith
    then have "int ((i - 1) div 2) < size' h" "int i < size' h"
      using i assms by (simp_all add: size_ok_def)
    then have "node_le (st ! (heap h ! ((i - 1) div 2))) (st ! (heap h ! i))"
      using inv c unfolding heap_invariant_def by blast
    then show "nkey st (heap h ! ((i - 1) div 2)) \<le> nkey st (heap h ! i)"
      by (simp add: node_le_nkey)
  qed
next
  assume hp: "is_heap (nkey st) (heap h)"
  show "heap_invariant st h"
    unfolding heap_invariant_def
  proof (intro allI impI)
    fix i c assume a: "int i < size' h \<and> int c < size' h \<and> (c = 2 * i + 1 \<or> c = 2 * i + 2)"
    then have "0 < c \<and> (c - 1) div 2 = i" using child_iff[of c i] by simp
    moreover have "c < length (heap h)" using a assms by (simp add: size_ok_def)
    ultimately have "nkey st (heap h ! i) \<le> nkey st (heap h ! c)"
      using hp unfolding is_heap_def by auto
    then show "node_le (st ! (heap h ! i)) (st ! (heap h ! c))"
      by (simp add: node_le_nkey)
  qed
qed

lemma pop_empty: "heap h = [] \<Longrightarrow> pop st h = (None, h)"
  by (simp add: pop_def)

lemma pop_step:
  assumes "heap h \<noteq> []"
  shows "pop st h = (Some (val (st ! (heap h ! 0))),
           h\<lparr>size' := size' h - 1, heap := snd (heappop (node_lt st) (heap h))\<rparr>)"
    and "mset (heap h) = add_mset (heap h ! 0) (mset (snd (heappop (node_lt st) (heap h))))"
    and "Suc (length (snd (heappop (node_lt st) (heap h)))) = length (heap h)"
proof -
  obtain r hp where p: "heappop (node_lt st) (heap h) = (r, hp)" by force
  note res = heappop_result[OF assms p]
  show "pop st h = (Some (val (st ! (heap h ! 0))),
           h\<lparr>size' := size' h - 1, heap := snd (heappop (node_lt st) (heap h))\<rparr>)"
    using assms p res(1) by (simp add: pop_def)
  show "mset (heap h) = add_mset (heap h ! 0) (mset (snd (heappop (node_lt st) (heap h))))"
    using p res by simp
  show "Suc (length (snd (heappop (node_lt st) (heap h)))) = length (heap h)"
    using p res by simp
qed

lemma pop_step_heap:
  assumes "heap h \<noteq> []" "is_heap (nkey st) (heap h)"
  shows "is_heap (nkey st) (snd (heappop (node_lt st) (heap h)))"
    and "\<forall>x\<in>set (heap h). nkey st (heap h ! 0) \<le> nkey st x"
proof -
  obtain r hp where p: "heappop (\<lambda>a b. nkey st a < nkey st b) (heap h) = (r, hp)" by force
  show "is_heap (nkey st) (snd (heappop (node_lt st) (heap h)))"
    using heappop_heap[OF assms p] p by (simp add: node_lt_nkey)
  show "\<forall>x\<in>set (heap h). nkey st (heap h ! 0) \<le> nkey st x"
    using is_heap_root_min[OF assms(2)] by (auto simp: in_set_conv_nth)
qed



lemma heap_invariant_code [code]:
  "heap_invariant st h =
     list_all (\<lambda>c. node_le (st ! (heap h ! ((c - 1) div 2))) (st ! (heap h ! c))) [1..<nat (size' h)]"
proof
  assume inv: "heap_invariant st h"
  show "list_all (\<lambda>c. node_le (st ! (heap h ! ((c - 1) div 2))) (st ! (heap h ! c))) [1..<nat (size' h)]"
    unfolding list_all_iff
  proof
    fix c assume "c \<in> set [1..<nat (size' h)]"
    then have c: "0 < c" "int c < size' h" by auto
    then have "(c - 1) div 2 < c" by arith
    then have "int ((c - 1) div 2) < size' h" using c by linarith
    moreover have "c = 2 * ((c - 1) div 2) + 1 \<or> c = 2 * ((c - 1) div 2) + 2"
      using c child_iff[of c "(c - 1) div 2"] by simp
    ultimately show "node_le (st ! (heap h ! ((c - 1) div 2))) (st ! (heap h ! c))"
      using inv c unfolding heap_invariant_def by blast
  qed
next
  assume l: "list_all (\<lambda>c. node_le (st ! (heap h ! ((c - 1) div 2))) (st ! (heap h ! c))) [1..<nat (size' h)]"
  show "heap_invariant st h"
    unfolding heap_invariant_def
  proof (intro allI impI)
    fix i c assume a: "int i < size' h \<and> int c < size' h \<and> (c = 2 * i + 1 \<or> c = 2 * i + 2)"
    then have "0 < c \<and> (c - 1) div 2 = i" using child_iff[of c i] by simp
    moreover have "c \<in> set [1..<nat (size' h)]" using a by auto
    ultimately show "node_le (st ! (heap h ! i)) (st ! (heap h ! c))"
      using l unfolding list_all_iff by auto
  qed
qed

lemma pop_n_spec:
  assumes "n \<le> length (heap h)" "is_heap (nkey st) (heap h)"
  shows "\<exists>ns hp. pop_n st h n = (map (\<lambda>r. Some (val (st ! r))) ns, h\<lparr>size' := size' h - int n, heap := hp\<rparr>) \<and>
           length ns = n \<and> mset ns + mset hp = mset (heap h) \<and> sorted (map (nkey st) ns) \<and>
           (\<forall>a\<in>set ns. \<forall>b\<in>set hp. nkey st a \<le> nkey st b) \<and> is_heap (nkey st) hp"
  using assms
proof (induction n arbitrary: h)
  case 0
  then show ?case by (intro exI[of _ "[]"] exI[of _ "heap h"]) simp
next
  case (Suc n)
  then have ne: "heap h \<noteq> []" by auto
  define r where "r = heap h ! 0"
  define hp1 where "hp1 = snd (heappop (node_lt st) (heap h))"
  define h1 where "h1 = h\<lparr>size' := size' h - 1, heap := hp1\<rparr>"
  note ps = pop_step[OF ne, of st, folded hp1_def r_def h1_def]
  note ph = pop_step_heap[OF ne Suc.prems(2), folded hp1_def r_def]
  have "n \<le> length (heap h1)" "is_heap (nkey st) (heap h1)"
    using ps(3) ph(1) Suc.prems(1) by (simp_all add: h1_def)
  from Suc.IH[OF this] obtain ns1 hp2 where
    ih: "pop_n st h1 n = (map (\<lambda>r. Some (val (st ! r))) ns1, h1\<lparr>size' := size' h1 - int n, heap := hp2\<rparr>)"
      "length ns1 = n" "mset ns1 + mset hp2 = mset (heap h1)" "sorted (map (nkey st) ns1)"
      "\<forall>a\<in>set ns1. \<forall>b\<in>set hp2. nkey st a \<le> nkey st b" "is_heap (nkey st) hp2"
    by blast
  have m1: "mset ns1 + mset hp2 = mset hp1" using ih(3) by (simp add: h1_def)
  have sub: "set ns1 \<union> set hp2 = set hp1"
    using arg_cong[OF m1, of set_mset] by simp
  have sub2: "set hp1 \<subseteq> set (heap h)"
    using arg_cong[OF ps(2), of set_mset] by auto
  have rmin: "\<forall>x\<in>set ns1 \<union> set hp2. nkey st r \<le> nkey st x"
    using ph(2) sub sub2 by auto
  have "pop_n st h (Suc n) = (map (\<lambda>r. Some (val (st ! r))) (r # ns1), h\<lparr>size' := size' h - int (Suc n), heap := hp2\<rparr>)"
    using ps(1) ih(1) by (simp add: h1_def)
  moreover have "mset (r # ns1) + mset hp2 = mset (heap h)"
    using m1 ps(2) by simp
  moreover have "sorted (map (nkey st) (r # ns1))"
    using ih(4) rmin by simp
  moreover have "\<forall>a\<in>set (r # ns1). \<forall>b\<in>set hp2. nkey st a \<le> nkey st b"
    using ih(5) rmin by simp
  ultimately show ?case using ih(2,6)
    by (intro exI[of _ "r # ns1"] exI[of _ hp2]) simp
qed

lemma drain_loop_pop_n:
  "size_ok h \<Longrightarrow>
   drain_loop st h acc =
     Some (acc @ fst (pop_n st h (length (heap h))), snd (pop_n st h (length (heap h))))"
proof (induction "length (heap h)" arbitrary: h acc)
  case 0
  then show ?case by (subst drain_loop.simps) (simp add: is_empty_def size_ok_def)
next
  case (Suc n)
  from Suc(2) have "0 < length (heap h)" by arith
  then have ne: "heap h \<noteq> []" by simp
  define hp1 where "hp1 = snd (heappop (node_lt st) (heap h))"
  define h1 where "h1 = h\<lparr>size' := size' h - 1, heap := hp1\<rparr>"
  note ps = pop_step[OF ne, of st, folded hp1_def h1_def]
  have l: "n = length (heap h1)" using ps(3) Suc(2) by (simp add: h1_def)
  have ok: "size_ok h1" using Suc(2,3) l by (simp add: size_ok_def h1_def)
  have "\<not> is_empty h" using ne Suc(3) by (simp add: is_empty_def size_ok_def)
  then have "drain_loop st h acc = drain_loop st h1 (acc @ [Some (val (st ! (heap h ! 0)))])"
    using ps(1) by (subst drain_loop.simps) (simp add: h1_def)
  also have "\<dots> = Some ((acc @ [Some (val (st ! (heap h ! 0)))]) @ fst (pop_n st h1 n), snd (pop_n st h1 n))"
    using Suc(1)[OF l ok] l by simp
  finally show ?case using ps(1) Suc(2)[symmetric] by (simp add: split_beta h1_def)
qed


text \<open>
  Where \<^verbatim>\<open>size\<close> is the length of the list and the heap invariant holds: on an empty
  heap \<^verbatim>\<open>pop\<close> and \<^verbatim>\<open>peek\<close> return \<open>None\<close> and \<^verbatim>\<open>pop\<close> leaves the heap as it is; on a
  non-empty heap there is a stored node \<open>r\<close> that is least in the total order,
  \<^verbatim>\<open>peek\<close> returns its (priority, value), and \<^verbatim>\<open>pop\<close> returns its value, takes exactly
  this node out of the list, decrements \<^verbatim>\<open>size\<close> by one and keeps the invariant.
\<close>

lemma pop_peek_spec:
  assumes "size_ok h" "heap_invariant st h"
  shows "(size' h = 0 \<longrightarrow> pop st h = (None, h) \<and> peek st h = None) \<and>
         (size' h \<noteq> 0 \<longrightarrow>
            (\<exists>r h'. r \<in> set (heap h) \<and> (\<forall>x\<in>set (heap h). node_le (st ! r) (st ! x)) \<and>
               peek st h = Some (priority (st ! r), val (st ! r)) \<and>
               pop st h = (Some (val (st ! r)), h') \<and>
               size' h' = size' h - 1 \<and> mset (heap h) = add_mset r (mset (heap h')) \<and>
               size_ok h' \<and> heap_invariant st h'))"
proof (intro conjI impI)
  assume "size' h = 0"
  then have "heap h = []" using assms(1) by (simp add: size_ok_def)
  then show "pop st h = (None, h)" "peek st h = None" by (simp_all add: pop_def peek_def)
next
  assume "size' h \<noteq> 0"
  then have ne: "heap h \<noteq> []" using assms(1) by (auto simp: size_ok_def)
  have hp: "is_heap (nkey st) (heap h)" using assms by (simp add: heap_invariant_is_heap)
  define r where "r = heap h ! 0"
  define hp1 where "hp1 = snd (heappop (node_lt st) (heap h))"
  define h1 where "h1 = h\<lparr>size' := size' h - 1, heap := hp1\<rparr>"
  note ps = pop_step[OF ne, of st, folded hp1_def r_def h1_def]
  note ph = pop_step_heap[OF ne hp, folded hp1_def r_def]
  have ok1: "size_ok h1" using ps(3) assms(1) by (auto simp: size_ok_def h1_def)
  have "r \<in> set (heap h)" using ne by (simp add: r_def)
  moreover have "\<forall>x\<in>set (heap h). node_le (st ! r) (st ! x)"
    using ph(2) by (simp add: node_le_nkey)
  moreover have "peek st h = Some (priority (st ! r), val (st ! r))"
    using ne by (simp add: peek_def r_def Let_def)
  moreover have "size' h1 = size' h - 1" "mset (heap h) = add_mset r (mset (heap h1))"
    using ps(2) by (simp_all add: h1_def)
  moreover have "heap_invariant st h1"
    using ph(1) ok1 by (simp add: heap_invariant_is_heap h1_def)
  ultimately show "\<exists>r h'. r \<in> set (heap h) \<and> (\<forall>x\<in>set (heap h). node_le (st ! r) (st ! x)) \<and>
               peek st h = Some (priority (st ! r), val (st ! r)) \<and>
               pop st h = (Some (val (st ! r)), h') \<and>
               size' h' = size' h - 1 \<and> mset (heap h) = add_mset r (mset (heap h')) \<and>
               size_ok h' \<and> heap_invariant st h'"
    using ps(1) ok1 by (intro exI[of _ r] exI[of _ h1]) (simp add: h1_def)
qed


lemma pop_peek_spec_example:
  "size_ok (snd demo_heap) \<and> heap_invariant (fst demo_heap) (snd demo_heap) \<and>
   size' (snd demo_heap) \<noteq> 0 \<and>
   peek (fst demo_heap) (snd demo_heap) = Some (1, (''task4'', 4)) \<and>
   (\<exists>r h'. r \<in> set (heap (snd demo_heap)) \<and>
      (\<forall>x\<in>set (heap (snd demo_heap)). node_le (fst demo_heap ! r) (fst demo_heap ! x)) \<and>
      peek (fst demo_heap) (snd demo_heap) = Some (priority (fst demo_heap ! r), val (fst demo_heap ! r)) \<and>
      pop (fst demo_heap) (snd demo_heap) = (Some (val (fst demo_heap ! r)), h') \<and>
      size' h' = size' (snd demo_heap) - 1 \<and>
      mset (heap (snd demo_heap)) = add_mset r (mset (heap h')) \<and>
      size_ok h' \<and> heap_invariant (fst demo_heap) h')"
proof -
  have a: "size_ok (snd demo_heap)" by code_simp
  have b: "heap_invariant (fst demo_heap) (snd demo_heap)" by code_simp
  have c: "size' (snd demo_heap) \<noteq> 0" by code_simp
  have d: "peek (fst demo_heap) (snd demo_heap) = Some (1, (''task4'', 4))" by code_simp
  show ?thesis using pop_peek_spec[OF a b] a b c d by blast
qed

text \<open>
  Where \<^verbatim>\<open>size\<close> is the length of the list and the heap invariant holds, \<^verbatim>\<open>drain\<close>,
  consumed to its end, returns: it yields the values of all stored nodes, in an order of
  the nodes that is non-decreasing in priority and, among equal priorities, in sequence
  number; afterwards the heap is empty.
\<close>

lemma drain_sorted:
  assumes "size_ok h" "heap_invariant st h"
  shows "\<exists>ns h'. drain st h = Some (map (\<lambda>r. Some (val (st ! r))) ns, h') \<and>
           mset ns = mset (heap h) \<and>
           sorted_wrt (\<lambda>a b. node_le (st ! a) (st ! b)) ns \<and>
           heap h' = [] \<and> size' h' = 0 \<and> is_empty h'"
proof -
  have hp: "is_heap (nkey st) (heap h)" using assms by (simp add: heap_invariant_is_heap)
  from pop_n_spec[OF le_refl hp] obtain ns hp2 where
    p: "pop_n st h (length (heap h)) = (map (\<lambda>r. Some (val (st ! r))) ns, h\<lparr>size' := size' h - int (length (heap h)), heap := hp2\<rparr>)"
      "length ns = length (heap h)" "mset ns + mset hp2 = mset (heap h)" "sorted (map (nkey st) ns)"
    by blast
  have "size (mset ns + mset hp2) = size (mset (heap h))" using p(3) by simp
  then have e: "hp2 = []" using p(2) by simp
  have "drain st h = Some (map (\<lambda>r. Some (val (st ! r))) ns, h\<lparr>size' := size' h - int (length (heap h)), heap := hp2\<rparr>)"
    using drain_loop_pop_n[OF assms(1), of st "[]"] p(1) by (simp add: drain_def)
  moreover have "sorted_wrt (\<lambda>a b. node_le (st ! a) (st ! b)) ns"
    using p(4) by (simp add: sorted_map node_le_nkey)
  ultimately show ?thesis using p(3) e assms(1)
    by (intro exI[of _ ns] exI[of _ "h\<lparr>size' := size' h - int (length (heap h)), heap := hp2\<rparr>"])
       (simp add: size_ok_def is_empty_def)
qed


lemma drain_sorted_example:
  "size_ok (snd demo_heap) \<and> heap_invariant (fst demo_heap) (snd demo_heap) \<and>
   map_option fst (drain (fst demo_heap) (snd demo_heap)) =
     Some [Some (''task4'', 4), Some (''task2'', 2), Some (''task1'', 1), Some (''task3'', 3)] \<and>
   (\<exists>ns h'. drain (fst demo_heap) (snd demo_heap) = Some (map (\<lambda>r. Some (val (fst demo_heap ! r))) ns, h') \<and>
      mset ns = mset (heap (snd demo_heap)) \<and>
      sorted_wrt (\<lambda>a b. node_le (fst demo_heap ! a) (fst demo_heap ! b)) ns \<and>
      heap h' = [] \<and> size' h' = 0 \<and> is_empty h')"
proof -
  have a: "size_ok (snd demo_heap)" by code_simp
  have b: "heap_invariant (fst demo_heap) (snd demo_heap)" by code_simp
  have c: "map_option fst (drain (fst demo_heap) (snd demo_heap)) =
     Some [Some (''task4'', 4), Some (''task2'', 2), Some (''task1'', 1), Some (''task3'', 3)]"
    by code_simp
  show ?thesis using drain_sorted[OF a b] a b c by blast
qed

text \<open>
  Where \<^verbatim>\<open>size\<close> is the length of the list and the heap invariant holds,
  \<^verbatim>\<open>k_smallest(k)\<close> returns the values of \<open>min(k, size)\<close> stored nodes (none when that is
  not positive), in ascending order of the total order, each of them at most every node
  it leaves out; and the heap after the call is the heap before it.
\<close>

lemma k_smallest_spec:
  assumes "size_ok h" "heap_invariant st h"
  shows "\<exists>ns rest. k_smallest st h k = (Inr (map (\<lambda>r. Some (val (st ! r))) ns), h) \<and>
           length ns = nat (min k (size' h)) \<and>
           mset ns + mset rest = mset (heap h) \<and>
           sorted_wrt (\<lambda>a b. node_le (st ! a) (st ! b)) ns \<and>
           (\<forall>a\<in>set ns. \<forall>b\<in>set rest. node_le (st ! a) (st ! b))"
proof -
  define h1 where "h1 = snapshot_enter h"
  define n where "n = nat (min k (size' h1))"
  have h1: "heap h1 = heap h" "size' h1 = size' h" by (simp_all add: h1_def snapshot_enter_def)
  have n: "n \<le> length (heap h1)" using assms(1) h1 by (simp add: n_def size_ok_def)
  have hp: "is_heap (nkey st) (heap h1)" using assms h1 by (simp add: heap_invariant_is_heap)
  from pop_n_spec[OF n hp] obtain ns hp2 where
    p: "pop_n st h1 n = (map (\<lambda>r. Some (val (st ! r))) ns, h1\<lparr>size' := size' h1 - int n, heap := hp2\<rparr>)"
      "length ns = n" "mset ns + mset hp2 = mset (heap h1)" "sorted (map (nkey st) ns)"
      "\<forall>a\<in>set ns. \<forall>b\<in>set hp2. nkey st a \<le> nkey st b"
    by blast
  have "snapshot_exit (h1\<lparr>size' := size' h1 - int n, heap := hp2\<rparr>) = (None, h)"
    using assms(1) by (simp add: snapshot_exit_def h1_def snapshot_enter_def size_ok_def)
  then have "k_smallest st h k = (Inr (map (\<lambda>r. Some (val (st ! r))) ns), h)"
    using p(1) by (simp add: k_smallest_def Let_def h1_def[symmetric] n_def[symmetric])
  moreover have "sorted_wrt (\<lambda>a b. node_le (st ! a) (st ! b)) ns"
    using p(4) by (simp add: sorted_map node_le_nkey)
  ultimately show ?thesis using p(2,3,5) h1
    by (intro exI[of _ ns] exI[of _ hp2]) (simp add: n_def node_le_nkey)
qed


lemma k_smallest_spec_example:
  "size_ok (snd demo_heap) \<and> heap_invariant (fst demo_heap) (snd demo_heap) \<and>
   fst (k_smallest (fst demo_heap) (snd demo_heap) 2) = Inr [Some (''task4'', 4), Some (''task2'', 2)] \<and>
   (\<exists>ns rest. k_smallest (fst demo_heap) (snd demo_heap) 2 =
        (Inr (map (\<lambda>r. Some (val (fst demo_heap ! r))) ns), snd demo_heap) \<and>
      length ns = nat (min 2 (size' (snd demo_heap))) \<and>
      mset ns + mset rest = mset (heap (snd demo_heap)) \<and>
      sorted_wrt (\<lambda>a b. node_le (fst demo_heap ! a) (fst demo_heap ! b)) ns \<and>
      (\<forall>a\<in>set ns. \<forall>b\<in>set rest. node_le (fst demo_heap ! a) (fst demo_heap ! b)))"
proof -
  have a: "size_ok (snd demo_heap)" by code_simp
  have b: "heap_invariant (fst demo_heap) (snd demo_heap)" by code_simp
  have c: "fst (k_smallest (fst demo_heap) (snd demo_heap) 2) = Inr [Some (''task4'', 4), Some (''task2'', 2)]"
    by code_simp
  show ?thesis using k_smallest_spec[OF a b, of 2] a b c by blast
qed

section \<open>Histories: size, snapshot stack and sequence numbers\<close>

















declare sift_up_loop.simps [simp del] sift_down_loop.simps [simp del]


















end
